theory Spec2Isabelle
  imports Complex_Main
begin

section \<open>Callbacks\<close>

text \<open>
  Gremlins, mogwais, before/after callbacks and cleanUp functions are opaque JavaScript
  functions. The orchestration code looks at three things only: the declared parameter
  count (\<open>callback.length\<close>), the optional \<open>cleanUp\<close> property, and whether and when
  the function calls the continuation it is handed as its last argument. A body is
  therefore a list of uses of that continuation: \<open>Now\<close> calls it before the body
  returns, \<open>Later d\<close> hands it to \<open>setTimeout\<close> with delay \<open>d\<close>, and
  \<open>Raise\<close> throws, which abandons the whole call stack of the current task.
  \<open>Noop\<close> is the anonymous \<open>() => undefined\<close> that \<open>pickGremlin\<close> creates.
\<close>

datatype use = Now | Later nat | Raise

datatype 'a callable =
    Callable (ident: 'a) (arity: nat) (uses: "use list") (cleanUp: "'a callable option")
  | Noop
  where
    "arity Noop = 0"
  | "uses Noop = []"
  | "cleanUp Noop = None"

section \<open>Distribution strategy: choosing a gremlin\<close>

text \<open>
  Weights and draws are JavaScript numbers; they are modelled as exact rationals, and the
  running total \<open>chance\<close> as \<open>rat option\<close>, where \<open>None\<close> is \<open>NaN\<close>: reading
  \<open>distribution[i]\<close> past the end of the array gives \<open>undefined\<close>, adding it gives
  \<open>NaN\<close>, and every comparison with \<open>NaN\<close> is false.
\<close>

definition getUniformDistribution :: "'a list \<Rightarrow> rat list" where
  "getUniformDistribution gremlins =
     (let length = length gremlins in
      if length = 0 then [] else replicate length (1 / of_nat length))"

definition js_add :: "rat option \<Rightarrow> rat option \<Rightarrow> rat option" where
  "js_add a b = (case (a, b) of (Some x, Some y) \<Rightarrow> Some (x + y) | _ \<Rightarrow> None)"

definition js_le :: "rat \<Rightarrow> rat option \<Rightarrow> bool" where
  "js_le r c = (case c of Some x \<Rightarrow> r \<le> x | None \<Rightarrow> False)"

definition js_index :: "'b list \<Rightarrow> nat \<Rightarrow> 'b option" where
  "js_index xs i = (if i < length xs then Some (xs ! i) else None)"

text \<open>The loop of \<open>pickGremlin\<close>, from index \<open>i\<close> with running total \<open>chance\<close>.\<close>

function pickLoop :: "'a callable list \<Rightarrow> rat list \<Rightarrow> rat \<Rightarrow> nat \<Rightarrow> rat option \<Rightarrow> 'a callable" where
  "pickLoop gremlins distribution random i chance =
     (if i < length gremlins then
        (let chance' = js_add chance (js_index distribution i) in
         if js_le random chance' then gremlins ! i
         else pickLoop gremlins distribution random (Suc i) chance')
      else Noop)"
  by pat_completeness auto
termination
  by (relation "measure (\<lambda>(gremlins, distribution, random, i, chance). length gremlins - i)") auto

declare pickLoop.simps [simp del]

definition pickGremlin :: "'a callable list \<Rightarrow> rat list \<Rightarrow> rat \<Rightarrow> 'a callable" where
  "pickGremlin gremlins distribution random = pickLoop gremlins distribution random 0 (Some 0)"

text \<open>The weights a run uses: the configured ones, or the uniform ones when none are configured.\<close>

definition chosenDistribution :: "rat list \<Rightarrow> 'a callable list \<Rightarrow> rat list" where
  "chosenDistribution configured gremlinsCopy =
     (if length configured = 0 then getUniformDistribution gremlinsCopy else configured)"


section \<open>Service injection\<close>

text \<open>
  \<open>inject(services, objects)\<close>. A target is named by its identity \<open>'o\<close>; \<open>property obj name\<close>
  is the property \<open>obj[name]\<close> when it is a function and \<open>None\<close> otherwise. A function
  property takes an optional parameter, returns a value of which only the truthiness is
  read, and may change the state \<open>'s\<close> of the targets. The services object is the list
  of its entries in \<open>for ... in\<close> order. The calls made are recorded.
\<close>

datatype ('o, 'v) call = Probe 'o string bool | Install 'o string 'v

type_synonym ('v, 's) accessor = "'v option \<Rightarrow> 's \<Rightarrow> bool \<times> 's"

fun injectInto ::
  "('o \<Rightarrow> string \<Rightarrow> ('v, 's) accessor option) \<Rightarrow> 'o \<Rightarrow> (string \<times> 'v) list \<Rightarrow>
   's \<times> ('o, 'v) call list \<Rightarrow> 's \<times> ('o, 'v) call list" where
  "injectInto property obj [] w = w"
| "injectInto property obj ((name, service) # rest) (s, calls) =
     (case property obj name of
        None \<Rightarrow> injectInto property obj rest (s, calls)
      | Some f \<Rightarrow>
          (let (configured, s1) = f None s in
           if \<not> configured then
             injectInto property obj rest (snd (f (Some service) s1),
               calls @ [Probe obj name configured, Install obj name service])
           else injectInto property obj rest (s1, calls @ [Probe obj name configured])))"

fun inject ::
  "('o \<Rightarrow> string \<Rightarrow> ('v, 's) accessor option) \<Rightarrow> (string \<times> 'v) list \<Rightarrow> 'o list \<Rightarrow>
   's \<times> ('o, 'v) call list \<Rightarrow> 's \<times> ('o, 'v) call list" where
  "inject property services [] w = w"
| "inject property services (obj # objects) w =
     inject property services objects (injectInto property obj services w)"

text \<open>
  A call log is guarded when every \<open>Install\<close> directly follows a \<open>Probe\<close> of the same
  accessor of the same target that returned a falsy value.
\<close>

fun guarded :: "('o, 'v) call list \<Rightarrow> bool" where
  "guarded [] = True"
| "guarded (Install obj name v # rest) = False"
| "guarded (Probe obj name b # Install obj' name' v # rest) =
     (\<not> b \<and> obj' = obj \<and> name' = name \<and> guarded rest)"
| "guarded (Probe obj name b # rest) = guarded rest"

fun target_of :: "('o, 'v) call \<Rightarrow> 'o \<times> string" where
  "target_of (Probe obj name b) = (obj, name)"
| "target_of (Install obj name v) = (obj, name)"

fun installs :: "('o, 'v) call list \<Rightarrow> (string \<times> 'v) list" where
  "installs [] = []"
| "installs (Install obj name v # rest) = (name, v) # installs rest"
| "installs (Probe obj name b # rest) = installs rest"

definition clean_log ::
  "('o \<Rightarrow> string \<Rightarrow> ('v, 's) accessor option) \<Rightarrow> (string \<times> 'v) list \<Rightarrow>
   ('o, 'v) call list \<Rightarrow> bool" where
  "clean_log property services calls \<longleftrightarrow>
     guarded calls \<and> set (installs calls) \<subseteq> set services \<and>
     (\<forall>c \<in> set calls. property (fst (target_of c)) (snd (target_of c)) \<noteq> None)"

text \<open>
  Modelled from the spec: the accessor that \<open>configurable\<close> (not among the sources)
  gives a function for each entry of its \<open>config\<close>. Called without an argument it reads
  the entry, called with one it writes it. The state is the table of the entries, and
  an entry counts as configured once it holds a value.
\<close>

definition slot :: "'o \<Rightarrow> string \<Rightarrow> ('v, 'o \<times> string \<Rightarrow> 'v option) accessor" where
  "slot obj name param s =
     (case param of
        None \<Rightarrow> (s (obj, name) \<noteq> None, s)
      | Some v \<Rightarrow> (True, s((obj, name) := Some v)))"

section \<open>The run-time: call stack, timers and the heap\<close>

text \<open>
  The code is callback-driven, so it is run on a small abstract machine: a stack of
  pending activations, the list of timers set with \<open>setTimeout\<close> (due time and function),
  and a heap. Arrays live in the heap and are named by references, because the code
  shares and mutates them: \<open>arrays\<close> holds arrays of functions (the registries, the
  callback lists), \<open>argvs\<close> holds argument arrays, \<open>cells\<close> holds the counter \<open>i\<close>
  that the timer functions of a strategy capture and increment, \<open>seqs\<close> holds the
  activations of \<open>executeInSeries\<close>. \<open>fresh\<close> is the next unused reference.

  Every function value that the orchestration code creates or passes on is a closure
  of the following type, named after its source text.
\<close>

type_synonym ref = nat

text \<open>
  The parameters of \<open>unleash\<close>: missing, or a record whose field \<open>nb\<close>, a count, may be
  missing.
\<close>

datatype params = Undefined | Record (nb_field: "nat option")

datatype 'a closure =
    Advance nat \<comment> \<open>\<open>() => iterator(callbacksCopy, args)\<close> of an activation of \<open>executeInSeries\<close>\<close>
  | Final \<comment> \<open>the completion callback of the outermost caller, opaque\<close>
  | CallDone \<comment> \<open>\<open>callDone\<close> of a strategy\<close>
  | WaveCallback ref \<comment> \<open>\<open>() => setTimeout(() => executeNextWave(++i), config.delay)\<close>\<close>
  | WaveTimer ref \<comment> \<open>\<open>() => executeNextWave(++i)\<close>\<close>
  | SpeciesCallback "'a callable" ref
      \<comment> \<open>by species: \<open>() => { setTimeout(function() { executeNext(gremlin, ++i, callback) }, config.delay) }\<close>\<close>
  | SpeciesTimer "'a callable" ref \<comment> \<open>\<open>function() { executeNext(gremlin, ++i, callback) }\<close>\<close>
  | StepCallback ref
      \<comment> \<open>distribution: \<open>function() { setTimeout(function() { executeNext(pickGremlin(..), ++i, callback) }, config.delay) }\<close>\<close>
  | StepTimer ref \<comment> \<open>\<open>function() { executeNext(pickGremlin(gremlinsCopy, distribution), ++i, callback) }\<close>\<close>
  | Attack params ref "'a closure option" \<comment> \<open>first continuation in \<open>unleash\<close>: run the strategies\<close>
  | Teardown ref "'a closure option" \<comment> \<open>second continuation in \<open>unleash\<close>: run \<open>afterCallbacks\<close>\<close>
  | Finish "'a closure option" \<comment> \<open>third continuation in \<open>unleash\<close>: call \<open>done\<close> if it is a function\<close>

datatype 'a arg = ArrayRef ref | ParamsArg params | Cont "'a closure"

datatype 'a frame =
    Iterator nat \<comment> \<open>\<open>iterator(callbacksCopy, args)\<close>\<close>
  | Body "use list" "'a closure option"
      \<comment> \<open>the rest of the body of an opaque callback, and the last argument it was given\<close>
  | Call "'a closure"
  | ClearDone \<comment> \<open>\<open>doneCallback = null\<close>, the last statement of \<open>callDone\<close>\<close>
  | ExecuteNextWave nat \<comment> \<open>all together: \<open>executeNextWave(i)\<close>\<close>
  | ExecuteNextGremlin \<comment> \<open>by species: \<open>executeNextGremlin()\<close>\<close>
  | ExecuteNextOfSpecies "'a callable" nat \<comment> \<open>by species: \<open>executeNext(gremlin, i, executeNextGremlin)\<close>\<close>
  | ExecuteNextStep "'a callable" nat \<comment> \<open>distribution: \<open>executeNext(gremlin, i, executeNext)\<close>\<close>

datatype 'a event =
    Invoked "'a callable" "'a arg list" \<comment> \<open>\<open>callback.apply(context, subArgs)\<close>\<close>
  | Began nat \<comment> \<open>a strategy passed its two tests and started wave or step \<open>i\<close>\<close>
  | Completed \<comment> \<open>the outermost completion callback ran\<close>

record 'a sequencer =
  callbacksCopy :: "'a callable list"
  args :: ref
  length_args :: nat \<comment> \<open>\<open>const { length } = args\<close>, read before the continuation is pushed\<close>
  doneFn :: "'a closure option" \<comment> \<open>\<open>done\<close>; \<open>None\<close> when it is not a function\<close>

record ('v) horde =
  h_gremlins :: ref
  h_mogwais :: ref
  h_strategies :: ref
  h_beforeCallbacks :: ref
  h_afterCallbacks :: ref
  h_logger :: 'v
  h_randomizer :: 'v

record ('a, 'v, 's) machine =
  stack :: "'a frame list"
  timers :: "(nat \<times> 'a closure) list"
  clock :: nat
  trace :: "'a event list"
  arrays :: "ref \<Rightarrow> 'a callable list"
  argvs :: "ref \<Rightarrow> 'a arg list"
  cells :: "ref \<Rightarrow> nat"
  seqs :: "nat \<Rightarrow> 'a sequencer"
  fresh :: nat
  \<comment> \<open>one strategy instance: its \<open>config\<close> and the variables its functions close over\<close>
  config_delay :: nat
  config_nb :: nat
  config_distribution :: "rat list"
  config_randomizer :: "nat \<Rightarrow> rat" \<comment> \<open>the successive results of \<open>floating({min: 0, max: 1})\<close>\<close>
  drawn :: nat \<comment> \<open>how many numbers have been drawn\<close>
  stopped :: bool
  doneCallback :: "'a closure option"
  run_nb :: nat
  run_gremlins :: ref
  run_gremlinsCopy :: ref
  run_distribution :: "rat list"
  \<comment> \<open>one horde, and the state of the accessors that \<open>inject\<close> calls\<close>
  the_horde :: "'v horde"
  world :: 's

section \<open>The sequencer\<close>

text \<open>
  \<open>executeInSeries(callbacks, args, context, done)\<close>, up to its call of \<open>iterator\<close>.
  Callbacks are opaque and do not read \<open>this\<close> in the model, so \<open>context\<close> is left out.
\<close>

definition executeInSeries ::
  "ref \<Rightarrow> ref \<Rightarrow> 'a closure option \<Rightarrow> ('a, 'v, 's) machine \<Rightarrow> ('a, 'v, 's) machine" where
  "executeInSeries callbacks argsRef done st =
     (let sid = fresh st;
          len = length (argvs st argsRef)
      in st\<lparr> seqs := (seqs st)(sid := \<lparr> callbacksCopy = arrays st callbacks, args = argsRef,
                                         length_args = len, doneFn = done \<rparr>),
             argvs := (argvs st)(argsRef := argvs st argsRef @ [Cont (Advance sid)]),
             fresh := Suc sid,
             stack := Iterator sid # stack st \<rparr>)"

text \<open>An array literal \<open>[x, ...]\<close> of functions, and an array literal of arguments.\<close>

definition newArray :: "'a callable list \<Rightarrow> ('a, 'v, 's) machine \<Rightarrow> ('a, 'v, 's) machine" where
  "newArray xs st = st\<lparr> arrays := (arrays st)(fresh st := xs), fresh := Suc (fresh st) \<rparr>"

definition newArgs :: "'a arg list \<Rightarrow> ('a, 'v, 's) machine \<Rightarrow> ('a, 'v, 's) machine" where
  "newArgs xs st = st\<lparr> argvs := (argvs st)(fresh st := xs), fresh := Suc (fresh st) \<rparr>"

definition newCell :: "nat \<Rightarrow> ('a, 'v, 's) machine \<Rightarrow> ('a, 'v, 's) machine" where
  "newCell i st = st\<lparr> cells := (cells st)(fresh st := i), fresh := Suc (fresh st) \<rparr>"

definition setTimeout :: "'a closure \<Rightarrow> nat \<Rightarrow> ('a, 'v, 's) machine \<Rightarrow> ('a, 'v, 's) machine" where
  "setTimeout f d st = st\<lparr> timers := timers st @ [(clock st + d, f)] \<rparr>"

definition push :: "'a frame \<Rightarrow> ('a, 'v, 's) machine \<Rightarrow> ('a, 'v, 's) machine" where
  "push f st = st\<lparr> stack := f # stack st \<rparr>"

text \<open>The last element of an argument array, when it is a function.\<close>

definition trailing :: "'a arg list \<Rightarrow> 'a closure option" where
  "trailing xs = (if xs = [] then None else case last xs of Cont k \<Rightarrow> Some k | _ \<Rightarrow> None)"

text \<open>
  One step of the activation on top of the stack; the activation has already been popped.
  \<open>iterator\<close> shifts the private copy; its test \<open>!callback\<close> cannot succeed on an array
  of functions. Calling a last argument that is not a function raises.
\<close>

fun tick :: "'a frame \<Rightarrow> ('a, 'v, 's) machine \<Rightarrow> ('a, 'v, 's) machine" where
  "tick (Iterator sid) st =
     (let s = seqs st sid in
      case callbacksCopy s of
        [] \<Rightarrow> (case doneFn s of Some k \<Rightarrow> push (Call k) st | None \<Rightarrow> st)
      | callback # rest \<Rightarrow>
          (let subArgs = argvs st (args s) in
           st\<lparr> seqs := (seqs st)(sid := s\<lparr> callbacksCopy := rest \<rparr>),
                trace := trace st @ [Invoked callback subArgs],
                stack := Body (uses callback) (trailing subArgs) #
                         (if arity callback = length_args s then [Iterator sid] else []) @ stack st \<rparr>))"
| "tick (Body [] k) st = st"
| "tick (Body (Now # us) k) st =
     (case k of Some f \<Rightarrow> st\<lparr> stack := Call f # Body us k # stack st \<rparr>
              | None \<Rightarrow> st\<lparr> stack := [] \<rparr>)"
| "tick (Body (Later d # us) k) st =
     (case k of Some f \<Rightarrow> push (Body us k) (setTimeout f d st)
              | None \<Rightarrow> st\<lparr> stack := [] \<rparr>)"
| "tick (Body (Raise # us) k) st = st\<lparr> stack := [] \<rparr>"
| "tick (Call (Advance sid)) st = push (Iterator sid) st"
| "tick (Call Final) st = st\<lparr> trace := trace st @ [Completed] \<rparr>"
| "tick (Call CallDone) st =
     (case doneCallback st of
        Some k \<Rightarrow> st\<lparr> stack := Call k # ClearDone # stack st \<rparr>
      | None \<Rightarrow> st\<lparr> doneCallback := None \<rparr>)"
| "tick ClearDone st = st\<lparr> doneCallback := None \<rparr>"
| "tick (ExecuteNextWave i) st =
     (if stopped st then st
      else if run_nb st \<le> i then push (Call CallDone) st
      else let c = fresh st; a = Suc (fresh st)
           in executeInSeries (run_gremlins st) a (Some (WaveCallback c))
                (newArgs [] (newCell i (st\<lparr> trace := trace st @ [Began i] \<rparr>))))"
| "tick (Call (WaveCallback c)) st = setTimeout (WaveTimer c) (config_delay st) st"
| "tick (Call (WaveTimer c)) st =
     (let i = Suc (cells st c) in push (ExecuteNextWave i) (st\<lparr> cells := (cells st)(c := i) \<rparr>))"
| "tick ExecuteNextGremlin st =
     (if stopped st then st
      else case arrays st (run_gremlinsCopy st) of
             [] \<Rightarrow> push (Call CallDone) st
           | gremlin # rest \<Rightarrow>
               push (ExecuteNextOfSpecies gremlin 0)
                    (st\<lparr> arrays := (arrays st)(run_gremlinsCopy st := rest) \<rparr>))"
| "tick (ExecuteNextOfSpecies gremlin i) st =
     (if stopped st then st
      else if run_nb st \<le> i then push ExecuteNextGremlin st
      else let c = fresh st; a = Suc (fresh st); r = Suc (Suc (fresh st))
           in executeInSeries r a (Some (SpeciesCallback gremlin c))
                (newArray [gremlin] (newArgs [] (newCell i (st\<lparr> trace := trace st @ [Began i] \<rparr>)))))"
| "tick (Call (SpeciesCallback gremlin c)) st = setTimeout (SpeciesTimer gremlin c) (config_delay st) st"
| "tick (Call (SpeciesTimer gremlin c)) st =
     (let i = Suc (cells st c)
      in push (ExecuteNextOfSpecies gremlin i) (st\<lparr> cells := (cells st)(c := i) \<rparr>))"
| "tick (ExecuteNextStep gremlin i) st =
     (if stopped st then st
      else if run_nb st \<le> i then push (Call CallDone) st
      else let c = fresh st; a = Suc (fresh st); r = Suc (Suc (fresh st))
           in executeInSeries r a (Some (StepCallback c))
                (newArray [gremlin] (newArgs [] (newCell i (st\<lparr> trace := trace st @ [Began i] \<rparr>)))))"
| "tick (Call (StepCallback c)) st = setTimeout (StepTimer c) (config_delay st) st"
| "tick (Call (StepTimer c)) st =
     (let gremlin = pickGremlin (arrays st (run_gremlinsCopy st)) (run_distribution st)
                      (config_randomizer st (drawn st));
          i = Suc (cells st c)
      in push (ExecuteNextStep gremlin i)
           (st\<lparr> drawn := Suc (drawn st), cells := (cells st)(c := i) \<rparr>))"
| "tick (Call (Attack params afterCallbacks done)) st =
     (let a = fresh st
      in executeInSeries (h_strategies (the_horde st)) a (Some (Teardown afterCallbacks done))
           (newArgs [ArrayRef (h_gremlins (the_horde st)), ParamsArg params] st))"
| "tick (Call (Teardown afterCallbacks done)) st =
     (let a = fresh st
      in executeInSeries afterCallbacks a (Some (Finish done)) (newArgs [] st))"
| "tick (Call (Finish done)) st = (case done of Some k \<Rightarrow> push (Call k) st | None \<Rightarrow> st)"

text \<open>
  The event loop. While the stack is not empty the current task runs; when it is empty,
  the timer that is due first (the oldest of them, if several are due together) fires.
\<close>

fun next_timer :: "(nat \<times> 'b) list \<Rightarrow> (nat \<times> 'b) option" where
  "next_timer [] = None"
| "next_timer (t # ts) =
     (case next_timer ts of
        None \<Rightarrow> Some t
      | Some r \<Rightarrow> if fst t \<le> fst r then Some t else Some r)"

definition step :: "('a, 'v, 's) machine \<Rightarrow> ('a, 'v, 's) machine option" where
  "step st =
     (case stack st of
        f # rest \<Rightarrow> Some (tick f (st\<lparr> stack := rest \<rparr>))
      | [] \<Rightarrow>
          (case next_timer (timers st) of
             None \<Rightarrow> None
           | Some t \<Rightarrow> Some (st\<lparr> timers := remove1 t (timers st),
                                  clock := max (clock st) (fst t),
                                  stack := [Call (snd t)] \<rparr>)))"

fun steps :: "nat \<Rightarrow> ('a, 'v, 's) machine \<Rightarrow> ('a, 'v, 's) machine" where
  "steps 0 st = st"
| "steps (Suc n) st = (case step st of None \<Rightarrow> st | Some st' \<Rightarrow> steps n st')"

text \<open>Nothing is left to run: the stack is empty and no timer is set.\<close>

definition quiescent :: "('a, 'v, 's) machine \<Rightarrow> bool" where
  "quiescent st \<longleftrightarrow> stack st = [] \<and> timers st = []"

text \<open>The current task alone: like \<open>steps\<close>, but no timer fires.\<close>

fun within_task :: "nat \<Rightarrow> ('a, 'v, 's) machine \<Rightarrow> ('a, 'v, 's) machine" where
  "within_task 0 st = st"
| "within_task (Suc n) st =
     (case stack st of [] \<Rightarrow> st | f # rest \<Rightarrow> within_task n (tick f (st\<lparr> stack := rest \<rparr>)))"

text \<open>The functions called through the sequencer, in order, and the number of completions.\<close>

fun invoked :: "'a event list \<Rightarrow> 'a callable list" where
  "invoked [] = []"
| "invoked (Invoked f xs # es) = f # invoked es"
| "invoked (e # es) = invoked es"

fun completions :: "'a event list \<Rightarrow> nat" where
  "completions [] = 0"
| "completions (Completed # es) = Suc (completions es)"
| "completions (e # es) = completions es"

text \<open>The waves or steps that began, by their index \<open>i\<close>, in order.\<close>

fun begun :: "'a event list \<Rightarrow> nat list" where
  "begun [] = []"
| "begun (Began i # es) = i # begun es"
| "begun (e # es) = begun es"

text \<open>
  A callback keeps the contract of the sequencer for \<open>len\<close> fixed arguments when it either
  declares \<open>len\<close> parameters and leaves the continuation alone, or declares one more and
  calls the continuation exactly once, at once or from a timer.
\<close>

definition well_behaved :: "nat \<Rightarrow> 'a callable \<Rightarrow> bool" where
  "well_behaved len f \<longleftrightarrow>
     (arity f = len \<and> uses f = []) \<or>
     (arity f = Suc len \<and> (uses f = [Now] \<or> (\<exists>d. uses f = [Later d])))"

text \<open>A frame that has nothing left to do: the end of a callback body.\<close>

definition inert :: "'a frame \<Rightarrow> bool" where
  "inert f \<longleftrightarrow> (\<exists>k. f = Body [] k)"

text \<open>
  The states of a machine on which one activation \<open>sid\<close> of the sequencer runs with an
  opaque final continuation, and what such a run leaves unchanged.
\<close>

fun seq_frame :: "nat \<Rightarrow> 'a frame \<Rightarrow> bool" where
  "seq_frame sid (Iterator s) = (s = sid)"
| "seq_frame sid (Body us k) = (k = Some (Advance sid))"
| "seq_frame sid (Call k) = (k = Advance sid \<or> k = Final)"
| "seq_frame sid fr = False"

fun received :: "'a arg list \<Rightarrow> 'a event \<Rightarrow> bool" where
  "received xs (Invoked f ys) = (ys = xs)"
| "received xs e = True"

definition seq_only :: "nat \<Rightarrow> ('a, 'v, 's) machine \<Rightarrow> bool" where
  "seq_only sid st \<longleftrightarrow>
     list_all (seq_frame sid) (stack st) \<and>
     list_all (\<lambda>t. snd t = Advance sid) (timers st) \<and>
     (doneFn (seqs st sid) = None \<or> doneFn (seqs st sid) = Some Final) \<and>
     trailing (argvs st (args (seqs st sid))) = Some (Advance sid)"

definition seq_same :: "nat \<Rightarrow> ('a, 'v, 's) machine \<Rightarrow> ('a, 'v, 's) machine \<Rightarrow> bool" where
  "seq_same sid st st' \<longleftrightarrow>
     arrays st' = arrays st \<and> argvs st' = argvs st \<and> fresh st' = fresh st \<and>
     args (seqs st' sid) = args (seqs st sid) \<and>
     (\<exists>es. trace st' = trace st @ es \<and> list_all (received (argvs st (args (seqs st sid)))) es)"

section \<open>The strategies\<close>

text \<open>The repetition count of a run: \<open>params && params.nb ? params.nb : config.nb\<close>.\<close>

definition chosen_nb :: "params \<Rightarrow> nat \<Rightarrow> nat" where
  "chosen_nb params configured =
     (case params of
        Undefined \<Rightarrow> configured
      | Record None \<Rightarrow> configured
      | Record (Some n) \<Rightarrow> if n \<noteq> 0 then n else configured)"



definition distribution :: "('a, 'v, 's) machine \<Rightarrow> ('a, 'v, 's) machine" where
  "distribution st =
     st\<lparr> config_distribution := [], config_delay := 10, config_nb := 1000,
         stopped := False, doneCallback := None \<rparr>"

text \<open>The strategy functions, up to their first call of \<open>executeNextWave\<close> or \<open>executeNext\<close>.\<close>

definition allTogetherStrategy ::
  "ref \<Rightarrow> params \<Rightarrow> 'a closure option \<Rightarrow> ('a, 'v, 's) machine \<Rightarrow> ('a, 'v, 's) machine" where
  "allTogetherStrategy gremlinsRef params done st =
     push (ExecuteNextWave 0)
       (st\<lparr> run_nb := chosen_nb params (config_nb st), run_gremlins := gremlinsRef,
             stopped := False, doneCallback := done \<rparr>)"

definition bySpeciesStrategy ::
  "ref \<Rightarrow> params \<Rightarrow> 'a closure option \<Rightarrow> ('a, 'v, 's) machine \<Rightarrow> ('a, 'v, 's) machine" where
  "bySpeciesStrategy gremlinsRef params done st =
     (let st1 = newArray (arrays st gremlinsRef) st
      in push ExecuteNextGremlin
           (st1\<lparr> run_nb := chosen_nb params (config_nb st), run_gremlinsCopy := fresh st,
                  stopped := False, doneCallback := done \<rparr>))"

definition distributionStrategy ::
  "ref \<Rightarrow> params \<Rightarrow> 'a closure option \<Rightarrow> ('a, 'v, 's) machine \<Rightarrow> ('a, 'v, 's) machine" where
  "distributionStrategy gremlinsRef params done st =
     (let nb = chosen_nb params (config_nb st);
          st1 = newArray (arrays st gremlinsRef) st;
          gremlinsCopy = fresh st;
          weights = chosenDistribution (config_distribution st) (arrays st1 gremlinsCopy);
          st2 = st1\<lparr> run_nb := nb, run_gremlinsCopy := gremlinsCopy, run_distribution := weights \<rparr>
      in if nb = 0 then (case done of Some k \<Rightarrow> push (Call k) st2 | None \<Rightarrow> st2)
         else push (ExecuteNextStep
                      (pickGremlin (arrays st2 gremlinsCopy) weights (config_randomizer st2 (drawn st2))) 0)
                (st2\<lparr> stopped := False, doneCallback := done, drawn := Suc (drawn st2) \<rparr>))"

text \<open>\<open>stop\<close> is the same function in the three strategies.\<close>

definition stop :: "('a, 'v, 's) machine \<Rightarrow> ('a, 'v, 's) machine" where
  "stop st = setTimeout CallDone 4 (st\<lparr> stopped := True \<rparr>)"

section \<open>The horde\<close>

text \<open>
  The global catalog \<open>gremlins\<close>: the species and mogwai factories in the order of the
  object literal, each with the function it returns when called, and the function that
  \<open>gremlins.strategies.distribution()\<close> returns. For the horde a strategy is one more
  opaque function, called with the gremlin array, the parameters and a continuation.
\<close>

record 'a catalog =
  species :: "(string \<times> 'a callable) list"
  mogwais :: "(string \<times> 'a callable) list"
  distribution_strategy :: "'a callable"

text \<open>\<open>new GremlinsHorde()\<close>: five empty registries, the default logger and randomizer.\<close>

definition createHorde :: "'v \<Rightarrow> 'v \<Rightarrow> ('a, 'v, 's) machine \<Rightarrow> ('a, 'v, 's) machine" where
  "createHorde console chance st =
     (let r = fresh st
      in st\<lparr> arrays := (arrays st)(r := [], r + 1 := [], r + 2 := [], r + 3 := [], r + 4 := []),
             fresh := r + 5,
             the_horde := \<lparr> h_gremlins = r, h_mogwais = r + 1, h_strategies = r + 2,
                            h_beforeCallbacks = r + 3, h_afterCallbacks = r + 4,
                            h_logger = console, h_randomizer = chance \<rparr> \<rparr>)"

text \<open>\<open>array.push(x)\<close>\<close>

definition array_push :: "ref \<Rightarrow> 'a callable \<Rightarrow> ('a, 'v, 's) machine \<Rightarrow> ('a, 'v, 's) machine" where
  "array_push r x st = st\<lparr> arrays := (arrays st)(r := arrays st r @ [x]) \<rparr>"

definition gremlin :: "'a callable \<Rightarrow> ('a, 'v, 's) machine \<Rightarrow> ('a, 'v, 's) machine" where
  "gremlin g st = array_push (h_gremlins (the_horde st)) g st"

definition mogwai :: "'a callable \<Rightarrow> ('a, 'v, 's) machine \<Rightarrow> ('a, 'v, 's) machine" where
  "mogwai m st = array_push (h_mogwais (the_horde st)) m st"

definition strategy :: "'a callable \<Rightarrow> ('a, 'v, 's) machine \<Rightarrow> ('a, 'v, 's) machine" where
  "strategy s st = array_push (h_strategies (the_horde st)) s st"

definition before :: "'a callable \<Rightarrow> ('a, 'v, 's) machine \<Rightarrow> ('a, 'v, 's) machine" where
  "before beforeCallback st = array_push (h_beforeCallbacks (the_horde st)) beforeCallback st"

definition after :: "'a callable \<Rightarrow> ('a, 'v, 's) machine \<Rightarrow> ('a, 'v, 's) machine" where
  "after afterCallback st = array_push (h_afterCallbacks (the_horde st)) afterCallback st"

definition allGremlins :: "'a catalog \<Rightarrow> ('a, 'v, 's) machine \<Rightarrow> ('a, 'v, 's) machine" where
  "allGremlins cat st = fold (\<lambda>(gremlinName, made). gremlin made) (species cat) st"

definition allMogwais :: "'a catalog \<Rightarrow> ('a, 'v, 's) machine \<Rightarrow> ('a, 'v, 's) machine" where
  "allMogwais cat st = fold (\<lambda>(mogwaiName, made). mogwai made) (mogwais cat) st"

text \<open>The loop of \<open>unleash\<close> that pushes every \<open>cleanUp\<close> function onto \<open>afterCallbacks\<close>.\<close>

fun pushCleanUps :: "ref \<Rightarrow> 'a callable list \<Rightarrow> ('a, 'v, 's) machine \<Rightarrow> ('a, 'v, 's) machine" where
  "pushCleanUps afterCallbacks [] st = st"
| "pushCleanUps afterCallbacks (g # gremlinsAndMogwais) st =
     pushCleanUps afterCallbacks gremlinsAndMogwais
       (case cleanUp g of Some f \<Rightarrow> array_push afterCallbacks f st | None \<Rightarrow> st)"

text \<open>
  \<open>unleash(params, done)\<close>, up to its call of \<open>executeInSeries\<close>; the three nested
  continuations are the closures \<open>Attack\<close>, \<open>Teardown\<close> and \<open>Finish\<close>.
  \<open>afterCallbacks\<close> is the registry itself, not a copy of it.
\<close>

definition unleash ::
  "'a catalog \<Rightarrow> ('a callable \<Rightarrow> string \<Rightarrow> ('v, 's) accessor option) \<Rightarrow> params \<Rightarrow>
   'a closure option \<Rightarrow> ('a, 'v, 's) machine \<Rightarrow> ('a, 'v, 's) machine" where
  "unleash cat property params done st =
     (let st1 = (if length (arrays st (h_gremlins (the_horde st))) = 0 then allGremlins cat st else st);
          st2 = (if length (arrays st1 (h_mogwais (the_horde st1))) = 0 then allMogwais cat st1 else st1);
          st3 = (if length (arrays st2 (h_strategies (the_horde st2))) = 0
                 then strategy (distribution_strategy cat) st2 else st2);
          h = the_horde st3;
          gremlinsAndMogwais = arrays st3 (h_gremlins h) @ arrays st3 (h_mogwais h);
          allCallbacks = gremlinsAndMogwais @ arrays st3 (h_strategies h) @
                         arrays st3 (h_beforeCallbacks h) @ arrays st3 (h_afterCallbacks h);
          st4 = st3\<lparr> world := fst (inject property
                                       [(''logger'', h_logger h), (''randomizer'', h_randomizer h)]
                                       allCallbacks (world st3, [])) \<rparr>;
          beforeCallbacks = fresh st4;
          st5 = newArray (arrays st4 (h_beforeCallbacks h) @ arrays st4 (h_mogwais h)) st4;
          afterCallbacks = h_afterCallbacks h;
          st6 = pushCleanUps afterCallbacks gremlinsAndMogwais st5;
          a = fresh st6
      in executeInSeries beforeCallbacks a (Some (Attack params afterCallbacks done)) (newArgs [] st6))"

text \<open>A machine on which nothing has been created or run.\<close>

definition blank :: "'v \<Rightarrow> 's \<Rightarrow> ('a, 'v, 's) machine" where
  "blank v w =
     \<lparr> stack = [], timers = [], clock = 0, trace = [],
       arrays = (\<lambda>r. []), argvs = (\<lambda>r. []), cells = (\<lambda>r. 0),
       seqs = (\<lambda>sid. \<lparr> callbacksCopy = [], args = 0, length_args = 0, doneFn = None \<rparr>),
       fresh = 0,
       config_delay = 0, config_nb = 0, config_distribution = [], config_randomizer = (\<lambda>n. 0),
       drawn = 0, stopped = False, doneCallback = None,
       run_nb = 0, run_gremlins = 0, run_gremlinsCopy = 0, run_distribution = [],
       the_horde = \<lparr> h_gremlins = 0, h_mogwais = 0, h_strategies = 0, h_beforeCallbacks = 0,
                      h_afterCallbacks = 0, h_logger = v, h_randomizer = v \<rparr>,
       world = w \<rparr>"

text \<open>The five registries of the horde are five different arrays that exist.\<close>

definition horde_ok :: "('a, 'v, 's) machine \<Rightarrow> bool" where
  "horde_ok st \<longleftrightarrow>
     (let h = the_horde st;
          registries = [h_gremlins h, h_mogwais h, h_strategies h, h_beforeCallbacks h,
                        h_afterCallbacks h]
      in distinct registries \<and> list_all (\<lambda>r. r < fresh st) registries)"

section \<open>Invariants of a strategy run\<close>

text \<open>
  The closures that occur inside a run of a strategy, the completion functions that a
  strategy hands to the sequencer, and the frames that are neither the call of the
  outermost completion callback nor the assignment that follows it in \<open>callDone\<close>.
\<close>

fun inner :: "'a closure \<Rightarrow> bool" where
  "inner Final = False"
| "inner (Attack p r d) = False"
| "inner (Teardown r d) = False"
| "inner (Finish d) = False"
| "inner k = True"

fun rearms :: "'a closure \<Rightarrow> bool" where
  "rearms (WaveCallback c) = True"
| "rearms (SpeciesCallback g c) = True"
| "rearms (StepCallback c) = True"
| "rearms k = False"

fun plain :: "'a frame \<Rightarrow> bool" where
  "plain (Body us k) = (case k of None \<Rightarrow> True | Some f \<Rightarrow> inner f)"
| "plain (Call k) = inner k"
| "plain ClearDone = False"
| "plain fr = True"

text \<open>
  Either the completion callback is still held in \<open>doneCallback\<close> and has not run since
  the strategy was started (when \<open>c0\<close> completions had been recorded), or
  \<open>doneCallback\<close> is \<open>null\<close> and it has run once. In between, \<open>callDone\<close> is on top of
  the stack.
\<close>

definition owed :: "'a closure option \<Rightarrow> nat \<Rightarrow> nat \<Rightarrow> bool" where
  "owed dc n c0 \<longleftrightarrow> (dc = Some Final \<and> n = c0) \<or> (dc = None \<and> n = Suc c0)"

fun accounted :: "'a frame list \<Rightarrow> 'a closure option \<Rightarrow> nat \<Rightarrow> nat \<Rightarrow> bool" where
  "accounted (Call Final # ClearDone # rest) dc n c0 =
     (list_all plain rest \<and> dc = Some Final \<and> n = c0)"
| "accounted (ClearDone # rest) dc n c0 = (list_all plain rest \<and> n = Suc c0)"
| "accounted stk dc n c0 = (list_all plain stk \<and> owed dc n c0)"

definition strategic :: "nat \<Rightarrow> ('a, 'v, 's) machine \<Rightarrow> bool" where
  "strategic c0 st \<longleftrightarrow>
     accounted (stack st) (doneCallback st) (completions (trace st)) c0 \<and>
     list_all (\<lambda>t. inner (snd t)) (timers st) \<and>
     (\<forall>sid. case doneFn (seqs st sid) of None \<Rightarrow> True | Some k \<Rightarrow> rearms k) \<and>
     (\<forall>a. case trailing (argvs st a) of None \<Rightarrow> True | Some k \<Rightarrow> inner k) \<and>
     (\<forall>sid. fresh st \<le> sid \<longrightarrow> callbacksCopy (seqs st sid) = [])"

text \<open>After \<open>stop\<close>: the completion has been delivered, or a call of \<open>callDone\<close> is still to come.\<close>

fun settling :: "'a frame list \<Rightarrow> bool" where
  "settling (Call CallDone # rest) = True"
| "settling (Call Final # rest) = True"
| "settling (ClearDone # rest) = True"
| "settling stk = False"

definition done_due :: "('a, 'v, 's) machine \<Rightarrow> bool" where
  "done_due st \<longleftrightarrow>
     doneCallback st = None \<or> CallDone \<in> snd ` set (timers st) \<or> settling (stack st)"

text \<open>
  A bound on the number of steps that a stopped strategy still takes: every frame, timer
  and queued callback is charged for the steps it can cause.
\<close>

fun use_weight :: "use \<Rightarrow> nat" where
  "use_weight Now = 7"
| "use_weight (Later d) = 8"
| "use_weight Raise = 1"

definition body_weight :: "use list \<Rightarrow> nat" where
  "body_weight us = Suc (sum_list (map use_weight us))"

fun call_weight :: "'a closure \<Rightarrow> nat" where
  "call_weight (Advance sid) = 6"
| "call_weight Final = 1"
| "call_weight CallDone = 3"
| "call_weight (WaveCallback c) = 4"
| "call_weight (WaveTimer c) = 2"
| "call_weight (SpeciesCallback g c) = 4"
| "call_weight (SpeciesTimer g c) = 2"
| "call_weight (StepCallback c) = 4"
| "call_weight (StepTimer c) = 2"
| "call_weight k = 0"

fun frame_weight :: "'a frame \<Rightarrow> nat" where
  "frame_weight (Iterator sid) = 5"
| "frame_weight (Body us k) = body_weight us"
| "frame_weight (Call k) = call_weight k"
| "frame_weight fr = 1"

definition queue_weight :: "'a callable list \<Rightarrow> nat" where
  "queue_weight q = sum_list (map (\<lambda>f. Suc (body_weight (uses f))) q)"

definition budget :: "('a, 'v, 's) machine \<Rightarrow> nat" where
  "budget st =
     sum_list (map frame_weight (stack st)) +
     sum_list (map (\<lambda>t. Suc (call_weight (snd t))) (timers st)) +
     (\<Sum>sid < fresh st. queue_weight (callbacksCopy (seqs st sid)))"

text \<open>A machine on which no task, timer, sequencer activation or argument array exists yet.\<close>

definition pristine :: "('a, 'v, 's) machine \<Rightarrow> bool" where
  "pristine st \<longleftrightarrow>
     stack st = [] \<and> timers st = [] \<and> doneCallback st = None \<and>
     (\<forall>sid. callbacksCopy (seqs st sid) = [] \<and> doneFn (seqs st sid) = None) \<and>
     (\<forall>a. argvs st a = [])"


text \<open>
  A strategy that was started runs for \<open>n\<close> steps, then \<open>stop\<close> is called \<open>m + 1\<close> times
  in succession, then the machine runs on for as many steps as the budget allows.
\<close>

definition halted :: "nat \<Rightarrow> nat \<Rightarrow> ('a, 'v, 's) machine \<Rightarrow> ('a, 'v, 's) machine" where
  "halted n m started = (stop ^^ Suc m) (steps n started)"

definition stop_after :: "nat \<Rightarrow> nat \<Rightarrow> ('a, 'v, 's) machine \<Rightarrow> ('a, 'v, 's) machine" where
  "stop_after n m started = steps (budget (halted n m started)) (halted n m started)"

text \<open>
  What \<open>stop\<close> achieves for a strategy that was started when \<open>c0\<close> completions had been
  recorded: the machine comes to rest; the completion callback has then run exactly once
  since the start; no wave or step began after the calls of \<open>stop\<close>; the calls of
  \<open>stop\<close> themselves record nothing; and the completion is delivered while the clock is
  at most 4 past the time of the calls.
\<close>

definition stops_cleanly :: "nat \<Rightarrow> nat \<Rightarrow> nat \<Rightarrow> ('a, 'v, 's) machine \<Rightarrow> bool" where
  "stops_cleanly c0 n m started \<longleftrightarrow>
     quiescent (stop_after n m started) \<and>
     completions (trace (stop_after n m started)) = Suc c0 \<and>
     begun (trace (stop_after n m started)) = begun (trace (steps n started)) \<and>
     trace (halted n m started) = trace (steps n started) \<and>
     (\<exists>k. completions (trace (steps k (halted n m started))) = Suc c0 \<and>
          clock (steps k (halted n m started)) \<le> clock (steps n started) + 4)"






section \<open>Properties\<close>

subsection \<open>Choosing a gremlin\<close>






text \<open>
  Claim C7. With two gremlins and no configured weights the weights are one half each,
  and the draws 0.1, 0.6 and 0.9 choose the first gremlin, then the second, then the second.
\<close>

theorem pickGremlin_uniform_two:
  "map (pickGremlin [A, B] (chosenDistribution [] [A, B])) [1/10, 6/10, 9/10] = [A, B, B]"
  by (simp add: pickGremlin_def chosenDistribution_def getUniformDistribution_def pickLoop.simps
        js_add_def js_le_def js_index_def)

subsection \<open>Service injection\<close>

lemma guarded_Probe: "guarded ys \<Longrightarrow> guarded (Probe obj name b # ys)"
  by (cases ys rule: guarded.cases) auto

lemma guarded_append: "guarded xs \<Longrightarrow> guarded ys \<Longrightarrow> guarded (xs @ ys)"
  by (induction xs rule: guarded.induct) (auto simp: guarded_Probe)

lemma installs_append: "installs (xs @ ys) = installs xs @ installs ys"
  by (induction xs rule: installs.induct) auto

lemma clean_log_append:
  "clean_log property services xs \<Longrightarrow> clean_log property services ys \<Longrightarrow> clean_log property services (xs @ ys)"
  by (auto simp: clean_log_def guarded_append installs_append)

lemma injectInto_log:
  "set rest \<subseteq> set services \<Longrightarrow>
   \<exists>new. snd (injectInto property obj rest (s, calls)) = calls @ new \<and> clean_log property services new"
proof (induction rest arbitrary: s calls)
  case Nil
  then show ?case by (simp add: clean_log_def)
next
  case (Cons p rest)
  obtain name service where p: "p = (name, service)" by (cases p)
  show ?case
  proof (cases "property obj name")
    case None
    with Cons p show ?thesis by simp
  next
    case (Some f)
    obtain configured s1 where f: "f None s = (configured, s1)" by (cases "f None s")
    show ?thesis
    proof (cases configured)
      case True
      from Cons obtain new where
        "snd (injectInto property obj rest (s1, calls @ [Probe obj name configured])) = (calls @ [Probe obj name configured]) @ new"
        "clean_log property services new" by (meson set_subset_Cons subset_trans)
      moreover have "clean_log property services [Probe obj name configured]"
        using Some by (simp add: clean_log_def)
      ultimately show ?thesis using Some f True p clean_log_append[of "property" services "[Probe obj name configured]" new]
        by (auto intro!: exI[of _ "[Probe obj name configured] @ new"])
    next
      case False
      let ?c = "[Probe obj name configured, Install obj name service]"
      from Cons obtain new where
        "snd (injectInto property obj rest (snd (f (Some service) s1), calls @ ?c)) = (calls @ ?c) @ new"
        "clean_log property services new" by (meson set_subset_Cons subset_trans)
      moreover have "clean_log property services ?c"
        using Some False Cons.prems p by (simp add: clean_log_def)
      ultimately show ?thesis using Some f False p clean_log_append[of "property" services ?c new]
        by (auto intro!: exI[of _ "?c @ new"])
    qed
  qed
qed

lemma inject_log:
  "\<exists>new. snd (inject property services objects (s, calls)) = calls @ new \<and> clean_log property services new"
proof (induction objects arbitrary: s calls)
  case Nil
  then show ?case by (simp add: clean_log_def)
next
  case (Cons obj objects)
  obtain s1 calls1 where i: "injectInto property obj services (s, calls) = (s1, calls1)"
    by (cases "injectInto property obj services (s, calls)")
  from injectInto_log[of services services property obj s calls] i obtain new1 where
    n1: "calls1 = calls @ new1" "clean_log property services new1" by auto
  from Cons[of s1 calls1] obtain new2 where
    n2: "snd (inject property services objects (s1, calls1)) = calls1 @ new2" "clean_log property services new2" by auto
  show ?case using i n1 n2 by (auto intro!: exI[of _ "new1 @ new2"] clean_log_append)
qed

text \<open>
  Claim C6. In the calls that \<open>inject\<close> makes, every call of an accessor with a service
  directly follows a call of the same accessor of the same target without argument that
  returned a falsy value, and the value passed is the service of that name. The same
  holds when the same services are injected again into the same targets in the state the
  first injection left, so no accessor that then reports a configured value is written
  again. A target that has no function under a service name receives no call for it.
\<close>

theorem inject_guarded:
  "guarded (snd (inject property services objects (s, []))) \<and>
   set (installs (snd (inject property services objects (s, [])))) \<subseteq> set services \<and>
   guarded (snd (inject property services objects (fst (inject property services objects (s, [])), []))) \<and>
   (property obj name = None \<longrightarrow> (obj, name) \<notin> target_of ` set (snd (inject property services objects (s, []))))"
proof -
  have a: "clean_log property services (snd (inject property services objects (s', [])))" for s'
    using inject_log[of property services objects s' "[]"] by auto
  have b: "(obj, name) \<notin> target_of ` set (snd (inject property services objects (s, [])))"
    if none: "property obj name = None"
  proof
    assume "(obj, name) \<in> target_of ` set (snd (inject property services objects (s, [])))"
    then obtain c where c: "c \<in> set (snd (inject property services objects (s, [])))"
      "target_of c = (obj, name)" by force
    from a[of s] c(1) have "property (fst (target_of c)) (snd (target_of c)) \<noteq> None"
      unfolding clean_log_def by blast
    with c(2) none show False by simp
  qed
  show ?thesis using a[of s] a[of "fst (inject property services objects (s, []))"] b
    by (simp add: clean_log_def)
qed

theorem inject_guarded_witness:
  "(\<lambda>obj name. if obj = (1::nat) \<and> name = ''logger'' then Some (slot obj name) else None) 0 ''logger'' = None \<and>
   snd (inject (\<lambda>obj name. if obj = (1::nat) \<and> name = ''logger'' then Some (slot obj name) else None)
          [(''logger'', 7::nat), (''randomizer'', 8)] [0, 1] (\<lambda>_. None, []))
     = [Probe 1 ''logger'' False, Install 1 ''logger'' 7] \<and>
   guarded (snd (inject (\<lambda>obj name. if obj = (1::nat) \<and> name = ''logger'' then Some (slot obj name) else None)
          [(''logger'', 7::nat), (''randomizer'', 8)] [0, 1] (\<lambda>_. None, []))) \<and>
   (0, ''logger'') \<notin> target_of ` set (snd (inject (\<lambda>obj name. if obj = (1::nat) \<and> name = ''logger'' then Some (slot obj name) else None)
          [(''logger'', 7::nat), (''randomizer'', 8)] [0, 1] (\<lambda>_. None, [])))"
  using inject_guarded[of "\<lambda>obj name. if obj = (1::nat) \<and> name = ''logger'' then Some (slot obj name) else None"
          "[(''logger'', 7::nat), (''randomizer'', 8)]" "[0, 1]" "\<lambda>_. None" 0 "''logger''"]
  by (simp add: slot_def)

subsection \<open>Running the machine\<close>

lemma step_stack: "stack st = f # rest \<Longrightarrow> step st = Some (tick f (st\<lparr> stack := rest \<rparr>))"
  by (simp add: step_def)

lemma steps_add: "steps (m + n) st = steps n (steps m st)"
proof (induction m arbitrary: st)
  case 0
  show ?case by simp
next
  case (Suc m)
  show ?case
  proof (cases "step st")
    case None
    then have "steps n st = st" by (cases n) simp_all
    with None show ?thesis by simp
  next
    case (Some st')
    with Suc show ?thesis by simp
  qed
qed

lemma inert_Body [simp]: "inert (Body [] k)"
  by (simp add: inert_def)

lemma steps_inert:
  "stack st = stk \<Longrightarrow> list_all inert stk \<Longrightarrow> steps (length stk) st = st\<lparr> stack := [] \<rparr>"
proof (induction stk arbitrary: st)
  case Nil
  then show ?case by simp
next
  case (Cons f stk)
  from Cons.prems obtain k where f: "f = Body [] k" by (auto simp: inert_def)
  have "step st = Some (st\<lparr> stack := stk \<rparr>)"
    using Cons.prems(1) f by (simp add: step_stack)
  moreover have "steps (length stk) (st\<lparr> stack := stk \<rparr>) = st\<lparr> stack := stk \<rparr>\<lparr> stack := [] \<rparr>"
    using Cons.prems by (intro Cons.IH) simp_all
  ultimately show ?case by simp
qed

lemma step_timer:
  "stack st = [] \<Longrightarrow> timers st = [(t, k)] \<Longrightarrow>
   step st = Some (st\<lparr> timers := [], clock := max (clock st) t, stack := [Call k] \<rparr>)"
  by (simp add: step_def)

lemma copy_same: "callbacksCopy s = q \<Longrightarrow> s\<lparr> callbacksCopy := q \<rparr> = s"
  by (cases s) simp

lemma seq_run:
  fixes st :: "('a, 'v, 's) machine"
  assumes "stack st = Iterator sid # stk" "list_all inert stk" "timers st = []"
    and "callbacksCopy (seqs st sid) = q"
    and "trailing (argvs st (args (seqs st sid))) = Some (Advance sid)"
    and "\<forall>f \<in> set q. well_behaved (length_args (seqs st sid)) f"
    and "doneFn (seqs st sid) = Some k"
  shows "\<exists>n stk' c. list_all inert stk' \<and> clock st \<le> c \<and>
           steps n st = st\<lparr> stack := Call k # stk',
                             trace := trace st @ map (\<lambda>f. Invoked f (argvs st (args (seqs st sid)))) q,
                             clock := c,
                             seqs := (seqs st)(sid := (seqs st sid)\<lparr> callbacksCopy := [] \<rparr>) \<rparr>"
  using assms
proof (induction q arbitrary: st stk)
  case Nil
  have "steps 1 st = st\<lparr> stack := Call k # stk \<rparr>"
    using Nil by (simp add: step_stack push_def)
  moreover have "(seqs st)(sid := (seqs st sid)\<lparr> callbacksCopy := [] \<rparr>) = seqs st"
    using Nil.prems(4) by (simp add: copy_same)
  ultimately have "steps 1 st = st\<lparr> stack := Call k # stk, trace := trace st @ map (\<lambda>f. Invoked f (argvs st (args (seqs st sid)))) [], clock := clock st,
      seqs := (seqs st)(sid := (seqs st sid)\<lparr> callbacksCopy := [] \<rparr>) \<rparr>"
    by simp
  then show ?case using Nil.prems(2) by (metis order_refl)
next
  case (Cons f q)
  let ?s = "seqs st sid"
  let ?as = "argvs st (args ?s)"
  let ?st0 = "st\<lparr> seqs := (seqs st)(sid := ?s\<lparr> callbacksCopy := q \<rparr>), trace := trace st @ [Invoked f ?as] \<rparr>"
  let ?goal = "\<lambda>n stk' c. list_all inert stk' \<and> clock st \<le> c \<and>
           steps n st = st\<lparr> stack := Call k # stk',
                             trace := trace st @ map (\<lambda>f. Invoked f ?as) (f # q),
                             clock := c,
                             seqs := (seqs st)(sid := ?s\<lparr> callbacksCopy := [] \<rparr>) \<rparr>"
  have wb: "well_behaved (length_args ?s) f" using Cons.prems by simp
  have first: "step st = Some (?st0\<lparr> stack := Body (uses f) (Some (Advance sid)) #
                         (if arity f = length_args ?s then [Iterator sid] else []) @ stk \<rparr>)"
    using Cons.prems by (simp add: step_stack Let_def)
  have ih: "\<exists>n stk' c. list_all inert stk' \<and> clock s2 \<le> c \<and>
           steps n s2 = s2\<lparr> stack := Call k # stk',
                             trace := trace s2 @ map (\<lambda>f. Invoked f (argvs s2 (args (seqs s2 sid)))) q,
                             clock := c,
                             seqs := (seqs s2)(sid := (seqs s2 sid)\<lparr> callbacksCopy := [] \<rparr>) \<rparr>"
    if "s2 = ?st0\<lparr> stack := Iterator sid # stk2, clock := c2 \<rparr>" "list_all inert stk2" for s2 stk2 c2
    using that Cons.prems by (intro Cons.IH[of s2 stk2]) simp_all
  have finish: "\<exists>n stk' c. ?goal n stk' c"
    if reach: "steps m st = ?st0\<lparr> stack := Iterator sid # stk2, clock := c2 \<rparr>"
      and "list_all inert stk2" "clock st \<le> c2" for m stk2 c2
  proof -
    let ?s2 = "?st0\<lparr> stack := Iterator sid # stk2, clock := c2 \<rparr>"
    from ih[OF refl that(2), of c2] obtain n stk' c where
      a: "list_all inert stk'" and b: "clock ?s2 \<le> c" and
      c: "steps n ?s2 = ?s2\<lparr> stack := Call k # stk',
                             trace := trace ?s2 @ map (\<lambda>f. Invoked f (argvs ?s2 (args (seqs ?s2 sid)))) q,
                             clock := c,
                             seqs := (seqs ?s2)(sid := (seqs ?s2 sid)\<lparr> callbacksCopy := [] \<rparr>) \<rparr>"
      by blast
    have "steps (m + n) st = steps n ?s2" using reach by (simp add: steps_add)
    also have "\<dots> = st\<lparr> stack := Call k # stk',
                             trace := trace st @ map (\<lambda>f. Invoked f ?as) (f # q),
                             clock := c,
                             seqs := (seqs st)(sid := ?s\<lparr> callbacksCopy := [] \<rparr>) \<rparr>"
      unfolding c by simp
    finally have "?goal (m + n) stk' c" using a b that(3) by simp
    then show ?thesis by blast
  qed
  from wb consider
      (sync) "arity f = length_args ?s" "uses f = []"
    | (now) "arity f = Suc (length_args ?s)" "uses f = [Now]"
    | (later) d where "arity f = Suc (length_args ?s)" "uses f = [Later d]"
    by (auto simp: well_behaved_def)
  then show ?case
  proof cases
    case sync
    have r: "steps 2 st = ?st0\<lparr> stack := Iterator sid # stk, clock := clock st \<rparr>"
      using first sync by (simp add: numeral_2_eq_2 step_stack)
    show ?thesis by (rule finish[OF r]) (use Cons.prems(2) in simp_all)
  next
    case now
    have r: "steps 3 st = ?st0\<lparr> stack := Iterator sid # Body [] (Some (Advance sid)) # stk, clock := clock st \<rparr>"
      using first now by (simp add: numeral_3_eq_3 step_stack push_def)
    show ?thesis by (rule finish[OF r]) (use Cons.prems(2) in simp_all)
  next
    case (later d)
    let ?s1 = "?st0\<lparr> stack := Body [] (Some (Advance sid)) # stk, timers := [(clock st + d, Advance sid)] \<rparr>"
    have 1: "steps 2 st = ?s1"
      using first later Cons.prems(3) by (simp add: numeral_2_eq_2 step_stack push_def setTimeout_def)
    have 2: "steps (length (Body [] (Some (Advance sid)) # stk)) ?s1 = ?s1\<lparr> stack := [] \<rparr>"
      using Cons.prems(2) by (intro steps_inert) simp_all
    have 3: "steps 2 (?s1\<lparr> stack := [] \<rparr>) = ?st0\<lparr> stack := Iterator sid # [], clock := clock st + d \<rparr>"
      using Cons.prems(3) by (simp add: numeral_2_eq_2 step_timer step_stack push_def)
    have r: "steps (2 + (length (Body [] (Some (Advance sid)) # stk) + 2)) st
            = ?st0\<lparr> stack := Iterator sid # [], clock := clock st + d \<rparr>"
      unfolding steps_add 1 2 3 ..
    show ?thesis by (rule finish[OF r]) simp_all
  qed
qed


lemma seq_same_refl: "seq_same sid st st"
  by (simp add: seq_same_def)

lemma seq_same_trans: "seq_same sid st st' \<Longrightarrow> seq_same sid st' st'' \<Longrightarrow> seq_same sid st st''"
  by (auto simp: seq_same_def)

lemma next_timer_None: "next_timer ts = None \<longleftrightarrow> ts = []"
  by (induction ts) (auto split: option.splits)

lemma next_timer_in: "next_timer ts = Some t \<Longrightarrow> t \<in> set ts"
  by (induction ts arbitrary: t) (auto split: option.splits if_splits)

text \<open>What the event loop does when the stack is empty and a step is possible.\<close>

lemma step_fires:
  assumes "stack st = []" "step st = Some st'"
  shows "\<exists>t. next_timer (timers st) = Some t \<and> t \<in> set (timers st) \<and>
             st' = st\<lparr> timers := remove1 t (timers st), clock := max (clock st) (fst t),
                         stack := [Call (snd t)] \<rparr>"
  using assms by (auto simp: step_def next_timer_in split: option.splits)

lemma list_all_remove1: "list_all P xs \<Longrightarrow> list_all P (remove1 x xs)"
  by (induction xs) auto

lemma tick_seq_only:
  assumes "seq_frame sid fr" "seq_only sid (st\<lparr> stack := fr # rest \<rparr>)"
  shows "seq_only sid (tick fr (st\<lparr> stack := rest \<rparr>)) \<and> seq_same sid st (tick fr (st\<lparr> stack := rest \<rparr>))"
proof (cases fr)
  case (Iterator s)
  with assms show ?thesis
    by (cases "callbacksCopy (seqs st sid)")
       (auto simp: seq_only_def seq_same_def push_def Let_def split: option.splits)
next
  case (Body us k)
  show ?thesis
  proof (cases us)
    case Nil
    with Body assms show ?thesis by (auto simp: seq_only_def seq_same_def)
  next
    case (Cons u us')
    with Body assms show ?thesis
      by (cases u) (auto simp: seq_only_def seq_same_def push_def setTimeout_def)
  qed
next
  case (Call k)
  with assms show ?thesis
    by (auto simp: seq_only_def seq_same_def push_def)
qed (use assms in auto)

lemma step_seq_only:
  assumes "seq_only sid st" "step st = Some st'"
  shows "seq_only sid st' \<and> seq_same sid st st'"
proof (cases "stack st")
  case Nil
  from step_fires[OF Nil assms(2)] obtain t where t: "t \<in> set (timers st)" and
    st': "st' = st\<lparr> timers := remove1 t (timers st), clock := max (clock st) (fst t), stack := [Call (snd t)] \<rparr>"
    by blast
  let ?t = t
  have "?t \<in> set (timers st)" by (rule t)
  with assms(1) have "snd ?t = Advance sid" by (auto simp: seq_only_def list_all_iff)
  with assms(1) show ?thesis unfolding st'
    by (auto simp: seq_only_def seq_same_def list_all_remove1)
next
  case (Cons fr rest)
  with assms have st': "st' = tick fr (st\<lparr> stack := rest \<rparr>)" by (simp add: step_def)
  have "st\<lparr> stack := fr # rest \<rparr> = st" using Cons by simp
  moreover have "seq_frame sid fr" using assms(1) Cons by (simp add: seq_only_def)
  ultimately show ?thesis unfolding st' using assms(1) tick_seq_only[where sid=sid and fr=fr and st=st and rest=rest] by simp
qed

lemma steps_seq_only:
  "seq_only sid st \<Longrightarrow> seq_only sid (steps n st) \<and> seq_same sid st (steps n st)"
proof (induction n arbitrary: st)
  case 0
  then show ?case by (simp add: seq_same_refl)
next
  case (Suc n)
  show ?case
  proof (cases "step st")
    case None
    with Suc.prems show ?thesis by (simp add: seq_same_refl)
  next
    case (Some st')
    with Suc.prems have a: "seq_only sid st'" "seq_same sid st st'"
      using step_seq_only by blast+
    from Suc.IH[OF a(1)] a(2) Some show ?thesis
      by (auto intro: seq_same_trans)
  qed
qed

subsection \<open>The sequencer\<close>

lemma run_sequence:
  fixes st :: "('a, 'v, 's) machine"
  assumes idle: "stack st = []" "timers st = []"
    and wb: "\<forall>f \<in> set (arrays st callbacks). well_behaved (length (argvs st a)) f"
  shows "\<exists>n c. steps n (executeInSeries callbacks a (Some Final) st) =
           (executeInSeries callbacks a (Some Final) st)
             \<lparr> stack := [],
               trace := trace st @ map (\<lambda>f. Invoked f (argvs st a @ [Cont (Advance (fresh st))]))
                                      (arrays st callbacks) @ [Completed],
               clock := c,
               seqs := (seqs (executeInSeries callbacks a (Some Final) st))
                         (fresh st := (seqs (executeInSeries callbacks a (Some Final) st) (fresh st))
                                        \<lparr> callbacksCopy := [] \<rparr>) \<rparr>"
proof -
  let ?s0 = "executeInSeries callbacks a (Some Final) st"
  let ?sid = "fresh st"
  have s0: "stack ?s0 = Iterator ?sid # []" "timers ?s0 = []"
    "callbacksCopy (seqs ?s0 ?sid) = arrays st callbacks"
    "args (seqs ?s0 ?sid) = a" "length_args (seqs ?s0 ?sid) = length (argvs st a)"
    "doneFn (seqs ?s0 ?sid) = Some Final"
    "argvs ?s0 a = argvs st a @ [Cont (Advance ?sid)]" "trace ?s0 = trace st"
    using idle by (simp_all add: executeInSeries_def Let_def)
  have "\<exists>n stk' c. list_all inert stk' \<and> clock ?s0 \<le> c \<and>
           steps n ?s0 = ?s0\<lparr> stack := Call Final # stk',
                             trace := trace ?s0 @ map (\<lambda>f. Invoked f (argvs ?s0 (args (seqs ?s0 ?sid)))) (arrays st callbacks),
                             clock := c,
                             seqs := (seqs ?s0)(?sid := (seqs ?s0 ?sid)\<lparr> callbacksCopy := [] \<rparr>) \<rparr>"
  proof (rule seq_run[where stk="[]"])
    show "stack ?s0 = Iterator ?sid # []" by (rule s0)
    show "list_all inert ([] :: 'a frame list)" by simp
    show "timers ?s0 = []" by (rule s0)
    show "callbacksCopy (seqs ?s0 ?sid) = arrays st callbacks" by (rule s0)
    show "trailing (argvs ?s0 (args (seqs ?s0 ?sid))) = Some (Advance ?sid)"
      unfolding s0 by (simp add: trailing_def)
    show "\<forall>f \<in> set (arrays st callbacks). well_behaved (length_args (seqs ?s0 ?sid)) f"
      unfolding s0 by (rule wb)
    show "doneFn (seqs ?s0 ?sid) = Some Final" by (rule s0)
  qed
  then obtain n stk' c where inert: "list_all inert stk'" and
    run: "steps n ?s0 = ?s0\<lparr> stack := Call Final # stk',
                             trace := trace st @ map (\<lambda>f. Invoked f (argvs st a @ [Cont (Advance ?sid)])) (arrays st callbacks),
                             clock := c,
                             seqs := (seqs ?s0)(?sid := (seqs ?s0 ?sid)\<lparr> callbacksCopy := [] \<rparr>) \<rparr>"
    unfolding s0 by blast
  let ?s1 = "?s0\<lparr> stack := Call Final # stk',
                             trace := trace st @ map (\<lambda>f. Invoked f (argvs st a @ [Cont (Advance ?sid)])) (arrays st callbacks),
                             clock := c,
                             seqs := (seqs ?s0)(?sid := (seqs ?s0 ?sid)\<lparr> callbacksCopy := [] \<rparr>) \<rparr>"
  let ?s2 = "?s1\<lparr> stack := stk', trace := trace ?s1 @ [Completed] \<rparr>"
  have 1: "steps 1 ?s1 = ?s2" by (simp add: step_stack)
  have 2: "steps (length stk') ?s2 = ?s2\<lparr> stack := [] \<rparr>"
    using inert by (intro steps_inert) simp_all
  have "steps (n + (1 + length stk')) ?s0 = ?s2\<lparr> stack := [] \<rparr>"
    unfolding steps_add run 1 2 ..
  also have "?s2\<lparr> stack := [] \<rparr> =
     ?s0\<lparr> stack := [],
          trace := trace st @ map (\<lambda>f. Invoked f (argvs st a @ [Cont (Advance (fresh st))]))
                                      (arrays st callbacks) @ [Completed],
          clock := c,
          seqs := (seqs ?s0)(fresh st := (seqs ?s0 (fresh st))\<lparr> callbacksCopy := [] \<rparr>) \<rparr>"
    by simp
  finally show ?thesis by blast
qed


lemma executeInSeries_seq_only:
  assumes "stack st = []" "timers st = []" "done = None \<or> done = Some Final"
  shows "seq_only (fresh st) (executeInSeries callbacks a done st)"
  using assms by (auto simp: seq_only_def executeInSeries_def Let_def trailing_def)

text \<open>
  Claim C2. Let the machine be idle and let every callback of the list keep the contract
  for the number of arguments given: synchronous, or asynchronous and calling its
  continuation exactly once, at once or later. Then the run of \<open>executeInSeries\<close> comes
  to rest, and its events are exactly one invocation of each callback, in the order of
  the list, followed by one completion. When the list is empty the completion happens
  within the calling task, after two steps, with no invocation.
\<close>

theorem executeInSeries_each_once_in_order:
  fixes st :: "('a, 'v, 's) machine"
  assumes "stack st = []" "timers st = []"
    and "\<forall>f \<in> set (arrays st callbacks). well_behaved (length (argvs st a)) f"
  shows "(\<exists>n. quiescent (steps n (executeInSeries callbacks a (Some Final) st)) \<and>
            trace (steps n (executeInSeries callbacks a (Some Final) st)) =
              trace st @ map (\<lambda>f. Invoked f (argvs st a @ [Cont (Advance (fresh st))]))
                             (arrays st callbacks) @ [Completed]) \<and>
         (arrays st callbacks = [] \<longrightarrow>
            stack (within_task 2 (executeInSeries callbacks a (Some Final) st)) = [] \<and>
            trace (within_task 2 (executeInSeries callbacks a (Some Final) st)) = trace st @ [Completed])"
proof
  from run_sequence[OF assms] obtain n c where
    "steps n (executeInSeries callbacks a (Some Final) st) =
           (executeInSeries callbacks a (Some Final) st)
             \<lparr> stack := [],
               trace := trace st @ map (\<lambda>f. Invoked f (argvs st a @ [Cont (Advance (fresh st))]))
                                      (arrays st callbacks) @ [Completed],
               clock := c,
               seqs := (seqs (executeInSeries callbacks a (Some Final) st))
                         (fresh st := (seqs (executeInSeries callbacks a (Some Final) st) (fresh st))
                                        \<lparr> callbacksCopy := [] \<rparr>) \<rparr>"
    by blast
  then have "quiescent (steps n (executeInSeries callbacks a (Some Final) st)) \<and>
            trace (steps n (executeInSeries callbacks a (Some Final) st)) =
              trace st @ map (\<lambda>f. Invoked f (argvs st a @ [Cont (Advance (fresh st))]))
                             (arrays st callbacks) @ [Completed]"
    using assms(2) by (simp add: quiescent_def executeInSeries_def Let_def)
  then show "\<exists>n. quiescent (steps n (executeInSeries callbacks a (Some Final) st)) \<and>
            trace (steps n (executeInSeries callbacks a (Some Final) st)) =
              trace st @ map (\<lambda>f. Invoked f (argvs st a @ [Cont (Advance (fresh st))]))
                             (arrays st callbacks) @ [Completed]" ..
next
  show "arrays st callbacks = [] \<longrightarrow>
            stack (within_task 2 (executeInSeries callbacks a (Some Final) st)) = [] \<and>
            trace (within_task 2 (executeInSeries callbacks a (Some Final) st)) = trace st @ [Completed]"
    using assms(1) by (simp add: numeral_2_eq_2 executeInSeries_def Let_def push_def)
qed

theorem executeInSeries_each_once_in_order_witness:
  "(let st = newArgs [] (newArray [Callable ''f'' 0 [] None, Callable ''g'' 1 [Later 5] None]
                (blank () () :: (string, unit, unit) machine))
    in stack st = [] \<and> timers st = [] \<and>
       list_all (well_behaved (length (argvs st 1))) (arrays st 0) \<and>
       (\<exists>n. quiescent (steps n (executeInSeries 0 1 (Some Final) st)) \<and>
            trace (steps n (executeInSeries 0 1 (Some Final) st)) =
              [Invoked (Callable ''f'' 0 [] None) [Cont (Advance 2)],
               Invoked (Callable ''g'' 1 [Later 5] None) [Cont (Advance 2)], Completed])) \<and>
   (let st = newArgs [] (newArray [] (blank () () :: (string, unit, unit) machine))
    in arrays st 0 = [] \<and>
       trace (within_task 2 (executeInSeries 0 1 (Some Final) st)) = [Completed])"
  using executeInSeries_each_once_in_order[of
          "newArgs [] (newArray [Callable ''f'' 0 [] None, Callable ''g'' 1 [Later 5] None]
                (blank () () :: (string, unit, unit) machine))" 0 1]
        executeInSeries_each_once_in_order[of
          "newArgs [] (newArray [] (blank () () :: (string, unit, unit) machine))" 0 1]
  by (simp add: newArgs_def newArray_def blank_def well_behaved_def Let_def numeral_2_eq_2)



lemma invoked_append: "invoked (xs @ ys) = invoked xs @ invoked ys"
  by (induction xs rule: invoked.induct) auto

lemma invoked_map: "invoked (map (\<lambda>f. Invoked f xs) q) = q"
  by (induction q) auto

text \<open>
  Claim C9. A run of \<open>executeInSeries\<close> changes no array of functions, at any moment of
  the run and whatever the callbacks do with the continuation: it shifts its private
  copy. So a list of callbacks that keep the contract can be run a second time, with a
  new argument array of the same contents, and the same functions are invoked again in
  the same order.
\<close>

theorem executeInSeries_keeps_callbacks:
  fixes st :: "('a, 'v, 's) machine"
  assumes "stack st = []" "timers st = []"
  shows "(\<forall>n. arrays (steps n (executeInSeries callbacks a None st)) = arrays st \<and>
              arrays (steps n (executeInSeries callbacks a (Some Final) st)) = arrays st) \<and>
         ((\<forall>f \<in> set (arrays st callbacks). well_behaved (length (argvs st a)) f) \<longrightarrow>
          (\<exists>n m. let s1 = steps n (executeInSeries callbacks a (Some Final) st);
                     s2 = steps m (executeInSeries callbacks (fresh s1) (Some Final)
                                     (newArgs (argvs st a) s1))
                 in quiescent s1 \<and> quiescent s2 \<and>
                    invoked (trace s1) = invoked (trace st) @ arrays st callbacks \<and>
                    invoked (trace s2) = invoked (trace s1) @ arrays st callbacks))"
proof (intro conjI allI impI)
  fix n
  have "seq_same (fresh st) (executeInSeries callbacks a done st)
          (steps n (executeInSeries callbacks a done st))"
    if "done = None \<or> done = Some Final" for "done" :: "'a closure option"
    using steps_seq_only[OF executeInSeries_seq_only[OF assms that]] by blast
  then have "arrays (steps n (executeInSeries callbacks a done st)) = arrays st"
    if "done = None \<or> done = Some Final" for "done" :: "'a closure option"
    using that by (simp add: seq_same_def executeInSeries_def Let_def)
  then show "arrays (steps n (executeInSeries callbacks a None st)) = arrays st"
    and "arrays (steps n (executeInSeries callbacks a (Some Final) st)) = arrays st"
    by simp_all
next
  assume wb: "\<forall>f \<in> set (arrays st callbacks). well_behaved (length (argvs st a)) f"
  let ?s0 = "executeInSeries callbacks a (Some Final) st"
  let ?q = "arrays st callbacks"
  from run_sequence[OF assms wb] obtain n c where
    s1: "steps n ?s0 =
           ?s0\<lparr> stack := [],
                trace := trace st @ map (\<lambda>f. Invoked f (argvs st a @ [Cont (Advance (fresh st))])) ?q
                           @ [Completed],
                clock := c,
                seqs := (seqs ?s0)(fresh st := (seqs ?s0 (fresh st))\<lparr> callbacksCopy := [] \<rparr>) \<rparr>"
    by blast
  let ?s1 = "steps n ?s0"
  let ?t = "newArgs (argvs st a) ?s1"
  have f1: "fresh ?s1 = Suc (fresh st)" "arrays ?s1 = arrays st" "timers ?s1 = []" "stack ?s1 = []"
    unfolding s1 using assms by (simp_all add: executeInSeries_def Let_def)
  have t: "stack ?t = []" "timers ?t = []" "arrays ?t callbacks = ?q"
    "argvs ?t (fresh ?s1) = argvs st a" "trace ?t = trace ?s1"
    using f1 by (simp_all add: newArgs_def)
  have "\<forall>f \<in> set (arrays ?t callbacks). well_behaved (length (argvs ?t (fresh ?s1))) f"
    unfolding t by (rule wb)
  from run_sequence[OF t(1,2) this] obtain m c' where
    s2: "steps m (executeInSeries callbacks (fresh ?s1) (Some Final) ?t) =
           (executeInSeries callbacks (fresh ?s1) (Some Final) ?t)
             \<lparr> stack := [],
               trace := trace ?t @ map (\<lambda>f. Invoked f (argvs ?t (fresh ?s1) @ [Cont (Advance (fresh ?t))]))
                                      (arrays ?t callbacks) @ [Completed],
               clock := c',
               seqs := (seqs (executeInSeries callbacks (fresh ?s1) (Some Final) ?t))
                         (fresh ?t := (seqs (executeInSeries callbacks (fresh ?s1) (Some Final) ?t) (fresh ?t))
                                        \<lparr> callbacksCopy := [] \<rparr>) \<rparr>"
    by blast
  let ?s2 = "steps m (executeInSeries callbacks (fresh ?s1) (Some Final) ?t)"
  have q1: "quiescent ?s1" using f1 by (simp add: quiescent_def)
  have q2: "quiescent ?s2" unfolding s2 using t by (simp add: quiescent_def executeInSeries_def Let_def)
  have i1: "invoked (trace ?s1) = invoked (trace st) @ ?q"
    unfolding s1 by (simp add: invoked_append invoked_map)
  have "trace ?s2 = trace ?s1 @ map (\<lambda>f. Invoked f (argvs st a @ [Cont (Advance (fresh ?t))])) ?q @ [Completed]"
    unfolding s2 using t by simp
  then have i2: "invoked (trace ?s2) = invoked (trace ?s1) @ ?q"
    by (simp add: invoked_append invoked_map)
  show "\<exists>n m. let s1 = steps n (executeInSeries callbacks a (Some Final) st);
                     s2 = steps m (executeInSeries callbacks (fresh s1) (Some Final)
                                     (newArgs (argvs st a) s1))
                 in quiescent s1 \<and> quiescent s2 \<and>
                    invoked (trace s1) = invoked (trace st) @ arrays st callbacks \<and>
                    invoked (trace s2) = invoked (trace s1) @ arrays st callbacks"
    using q1 q2 i1 i2 unfolding Let_def by blast
qed

theorem executeInSeries_keeps_callbacks_witness:
  "(let st = newArgs [] (newArray [Callable ''f'' 0 [] None, Callable ''g'' 1 [Later 5] None]
                (blank () () :: (string, unit, unit) machine))
    in stack st = [] \<and> timers st = [] \<and>
       list_all (well_behaved (length (argvs st 1))) (arrays st 0) \<and>
       (\<forall>n. arrays (steps n (executeInSeries 0 1 (Some Final) st)) 0
               = [Callable ''f'' 0 [] None, Callable ''g'' 1 [Later 5] None]) \<and>
       (\<exists>n m. let s1 = steps n (executeInSeries 0 1 (Some Final) st);
                  s2 = steps m (executeInSeries 0 (fresh s1) (Some Final) (newArgs [] s1))
              in quiescent s1 \<and> quiescent s2 \<and>
                 invoked (trace s1) = [Callable ''f'' 0 [] None, Callable ''g'' 1 [Later 5] None] \<and>
                 invoked (trace s2) = invoked (trace s1) @
                                      [Callable ''f'' 0 [] None, Callable ''g'' 1 [Later 5] None]))"
  using executeInSeries_keeps_callbacks[where st =
          "newArgs [] (newArray [Callable ''f'' 0 [] None, Callable ''g'' 1 [Later 5] None]
                (blank () () :: (string, unit, unit) machine))" and callbacks = 0 and a = 1]
  by (simp add: newArgs_def newArray_def blank_def well_behaved_def Let_def)

subsection \<open>The horde\<close>

lemma fold_gremlin:
  "fold (\<lambda>(gremlinName, made). gremlin made) xs st =
     st\<lparr> arrays := (arrays st)(h_gremlins (the_horde st) :=
                       arrays st (h_gremlins (the_horde st)) @ map snd xs) \<rparr>"
  by (induction xs arbitrary: st) (auto simp: gremlin_def array_push_def)

lemma fold_mogwai:
  "fold (\<lambda>(mogwaiName, made). mogwai made) xs st =
     st\<lparr> arrays := (arrays st)(h_mogwais (the_horde st) :=
                       arrays st (h_mogwais (the_horde st)) @ map snd xs) \<rparr>"
  by (induction xs arbitrary: st) (auto simp: mogwai_def array_push_def)

lemma pushCleanUps_eq:
  "pushCleanUps r gs st = st\<lparr> arrays := (arrays st)(r := arrays st r @ List.map_filter cleanUp gs) \<rparr>"
  by (induction gs arbitrary: st) (auto simp: array_push_def List.map_filter_simps split: option.splits)

text \<open>
  Claim C5. When the three registries are empty, \<open>unleash\<close> fills the gremlin registry
  with what the species factories of the catalog return, the mogwai registry with what
  its mogwai factories return, and the strategy registry with the one function that the
  distribution factory returns. When the gremlin registry is not empty, \<open>unleash\<close>
  leaves it as it is.
\<close>

theorem unleash_defaults:
  fixes st :: "('a, 'v, 's) machine"
  assumes "horde_ok st"
  shows "(arrays st (h_gremlins (the_horde st)) = [] \<and> arrays st (h_mogwais (the_horde st)) = [] \<and>
          arrays st (h_strategies (the_horde st)) = [] \<longrightarrow>
            arrays (unleash cat property params done st) (h_gremlins (the_horde st)) = map snd (species cat) \<and>
            arrays (unleash cat property params done st) (h_mogwais (the_horde st)) = map snd (mogwais cat) \<and>
            arrays (unleash cat property params done st) (h_strategies (the_horde st))
              = [distribution_strategy cat]) \<and>
         (arrays st (h_gremlins (the_horde st)) \<noteq> [] \<longrightarrow>
            arrays (unleash cat property params done st) (h_gremlins (the_horde st))
              = arrays st (h_gremlins (the_horde st)))"
  using assms
  by (auto simp: unleash_def horde_ok_def Let_def allGremlins_def allMogwais_def fold_gremlin fold_mogwai
        strategy_def array_push_def pushCleanUps_eq newArray_def newArgs_def executeInSeries_def)

theorem unleash_defaults_witness:
  "horde_ok (createHorde () () (blank () ()) :: (string, unit, unit) machine) \<and>
   horde_ok (gremlin (Callable ''mine'' 0 [] None) (createHorde () () (blank () ())) :: (string, unit, unit) machine) \<and>
   arrays (unleash \<lparr> species = [(''clicker'', Callable ''clickerGremlin'' 0 [] None),
                                 (''typer'', Callable ''typerGremlin'' 0 [] None)],
                      mogwais = [(''fps'', Callable ''fpsMogwai'' 0 [] (Some (Callable ''fpsCleanUp'' 0 [] None)))],
                      distribution_strategy = Callable ''distributionStrategy'' 3 [Later 10] None \<rparr>
             (\<lambda>obj name. None) Undefined None
             (createHorde () () (blank () ()) :: (string, unit, unit) machine)) 0
     = [Callable ''clickerGremlin'' 0 [] None, Callable ''typerGremlin'' 0 [] None] \<and>
   arrays (unleash \<lparr> species = [(''clicker'', Callable ''clickerGremlin'' 0 [] None),
                                 (''typer'', Callable ''typerGremlin'' 0 [] None)],
                      mogwais = [(''fps'', Callable ''fpsMogwai'' 0 [] (Some (Callable ''fpsCleanUp'' 0 [] None)))],
                      distribution_strategy = Callable ''distributionStrategy'' 3 [Later 10] None \<rparr>
             (\<lambda>obj name. None) Undefined None
             (gremlin (Callable ''mine'' 0 [] None) (createHorde () () (blank () ())) :: (string, unit, unit) machine)) 0
     = [Callable ''mine'' 0 [] None]"
  using unleash_defaults[of "createHorde () () (blank () ()) :: (string, unit, unit) machine"
          "\<lparr> species = [(''clicker'', Callable ''clickerGremlin'' 0 [] None),
                                 (''typer'', Callable ''typerGremlin'' 0 [] None)],
                      mogwais = [(''fps'', Callable ''fpsMogwai'' 0 [] (Some (Callable ''fpsCleanUp'' 0 [] None)))],
                      distribution_strategy = Callable ''distributionStrategy'' 3 [Later 10] None \<rparr>"
          "\<lambda>obj name. None" Undefined None]
        unleash_defaults[of "gremlin (Callable ''mine'' 0 [] None) (createHorde () () (blank () ())) :: (string, unit, unit) machine"
          "\<lparr> species = [(''clicker'', Callable ''clickerGremlin'' 0 [] None),
                                 (''typer'', Callable ''typerGremlin'' 0 [] None)],
                      mogwais = [(''fps'', Callable ''fpsMogwai'' 0 [] (Some (Callable ''fpsCleanUp'' 0 [] None)))],
                      distribution_strategy = Callable ''distributionStrategy'' 3 [Later 10] None \<rparr>"
          "\<lambda>obj name. None" Undefined None]
  by (simp add: horde_ok_def createHorde_def blank_def gremlin_def array_push_def Let_def)

text \<open>
  Claim C1, evaluated where the code departs from it. A horde with a gremlin, a mogwai
  \<open>M\<close> whose \<open>cleanUp\<close> is \<open>C\<close>, a strategy \<open>S\<close> and an after-callback \<open>A\<close> is unleashed,
  runs to rest, and is unleashed again. The first run calls \<open>M\<close>, \<open>S\<close>, \<open>A\<close>, \<open>C\<close>. The
  second run calls \<open>C\<close> twice in its teardown: \<open>unleash\<close> pushes the \<open>cleanUp\<close> functions
  onto the registry of after-callbacks itself, which then holds \<open>A\<close>, \<open>C\<close>, \<open>C\<close>.
\<close>

theorem second_unleash_repeats_cleanUp:
  "(let C = Callable ''C'' 0 [] None;
        M = Callable ''M'' 0 [] (Some C);
        G = Callable ''G'' 0 [] None;
        S = Callable ''S'' 3 [Later 0] None;
        A = Callable ''A'' 1 [Now] None;
        cat = \<lparr> species = [], mogwais = [], distribution_strategy = S \<rparr>;
        h0 = after A (strategy S (mogwai M (gremlin G
               (createHorde () () (blank () () :: (string, unit, unit) machine)))));
        h1 = steps 40 (unleash cat (\<lambda>obj name. None) Undefined (Some Final) h0);
        h2 = steps 40 (unleash cat (\<lambda>obj name. None) Undefined (Some Final) h1)
    in quiescent h1 \<and> invoked (trace h1) = [M, S, A, C] \<and>
       quiescent h2 \<and> invoked (trace h2) = [M, S, A, C] @ [M, S, A, C, C] \<and>
       arrays h2 (h_afterCallbacks (the_horde h2)) = [A, C, C])"
  by code_simp

subsection \<open>Stopping a strategy\<close>

lemma completions_append: "completions (xs @ ys) = completions xs + completions ys"
  by (induction xs rule: completions.induct) auto

lemma begun_append: "begun (xs @ ys) = begun xs @ begun ys"
  by (induction xs rule: begun.induct) auto

lemma rearms_inner: "rearms k \<Longrightarrow> inner k"
  by (cases k) auto

lemma accounted_plain:
  "plain f \<Longrightarrow> accounted (f # rest) dc n c0 = (list_all plain rest \<and> owed dc n c0)"
  by (cases f; cases rest) (auto elim: inner.elims)

lemma accounted_Call:
  "inner k \<Longrightarrow> accounted (Call k # rest) dc n c0 = (list_all plain rest \<and> owed dc n c0)"
  by (simp add: accounted_plain)

lemma accounted_Final:
  "accounted (Call Final # rest) dc n c0 =
     (\<exists>rest'. rest = ClearDone # rest' \<and> list_all plain rest' \<and> dc = Some Final \<and> n = c0)"
proof (cases rest)
  case Nil
  then show ?thesis by simp
next
  case (Cons f r)
  then show ?thesis by (cases f) auto
qed


lemmas tick_defs = push_def setTimeout_def executeInSeries_def newArgs_def newArray_def newCell_def Let_def

lemma accounted_all_plain:
  "list_all plain stk \<Longrightarrow> accounted stk dc n c0 = owed dc n c0"
  by (cases stk) (simp_all add: accounted_plain)

lemma strategicI:
  assumes "accounted (stack st) (doneCallback st) (completions (trace st)) c0"
    and "list_all (\<lambda>t. inner (snd t)) (timers st)"
    and "\<And>sid k. doneFn (seqs st sid) = Some k \<Longrightarrow> rearms k"
    and "\<And>a k. trailing (argvs st a) = Some k \<Longrightarrow> inner k"
    and "\<And>sid. fresh st \<le> sid \<Longrightarrow> callbacksCopy (seqs st sid) = []"
  shows "strategic c0 st"
  using assms by (auto simp: strategic_def split: option.splits)

lemma strategicD:
  assumes "strategic c0 st"
  shows "accounted (stack st) (doneCallback st) (completions (trace st)) c0"
    and "list_all (\<lambda>t. inner (snd t)) (timers st)"
    and "\<And>sid k. doneFn (seqs st sid) = Some k \<Longrightarrow> rearms k"
    and "\<And>a k. trailing (argvs st a) = Some k \<Longrightarrow> inner k"
    and "\<And>sid. fresh st \<le> sid \<Longrightarrow> callbacksCopy (seqs st sid) = []"
proof -
  show "accounted (stack st) (doneCallback st) (completions (trace st)) c0"
    and "list_all (\<lambda>t. inner (snd t)) (timers st)"
    using assms by (simp_all add: strategic_def)
  show "rearms k" if "doneFn (seqs st sid) = Some k" for sid k
  proof -
    from assms have "case doneFn (seqs st sid) of None \<Rightarrow> True | Some k \<Rightarrow> rearms k"
      unfolding strategic_def by blast
    with that show ?thesis by simp
  qed
  show "inner k" if "trailing (argvs st a) = Some k" for a k
  proof -
    from assms have "case trailing (argvs st a) of None \<Rightarrow> True | Some k \<Rightarrow> inner k"
      unfolding strategic_def by blast
    with that show ?thesis by simp
  qed
  show "callbacksCopy (seqs st sid) = []" if "fresh st \<le> sid" for sid
    using assms that unfolding strategic_def by blast
qed

lemma trailing_snoc [simp]: "trailing (xs @ [Cont k]) = Some k"
  by (simp add: trailing_def)

lemma trailing_Nil [simp]: "trailing [] = None"
  by (simp add: trailing_def)

lemma trailing_single [simp]: "trailing [Cont k] = Some k"
  by (simp add: trailing_def)

lemma tick_strategic:
  fixes st :: "('a, 'v, 's) machine"
  assumes inv: "strategic c0 (st\<lparr> stack := f # rest \<rparr>)"
  shows "strategic c0 (tick f (st\<lparr> stack := rest \<rparr>))"
proof -
  note d = strategicD[OF inv, simplified]
  have T: "list_all (\<lambda>t. inner (snd t)) (timers st)" by (rule d(2))
  have D: "rearms k" if "doneFn (seqs st sid) = Some k" for sid k using d(3) that .
  have G: "inner k" if "trailing (argvs st a) = Some k" for a k using d(4) that .
  have Q: "callbacksCopy (seqs st sid) = []" if "fresh st \<le> sid" for sid using d(5) that .
  have Q1: "callbacksCopy (seqs st sid) = []" if "Suc (fresh st) \<le> sid" for sid
    using that by (intro Q) simp
  have Q2: "callbacksCopy (seqs st sid) = []" if "Suc (Suc (fresh st)) \<le> sid" for sid
    using that by (intro Q) simp
  have Q3: "callbacksCopy (seqs st sid) = []" if "Suc (Suc (Suc (fresh st))) \<le> sid" for sid
    using that by (intro Q) simp
  have Q4: "callbacksCopy (seqs st sid) = []" if "Suc (Suc (Suc (Suc (fresh st)))) \<le> sid" for sid
    using that by (intro Q) simp
  show ?thesis
  proof (cases f)
    case (Iterator sid)
    with d(1) have A: "list_all plain rest" "owed (doneCallback st) (completions (trace st)) c0"
      by simp_all
    show ?thesis
    proof (cases "callbacksCopy (seqs st sid)")
      case Nil
      show ?thesis
      proof (cases "doneFn (seqs st sid)")
        case None
        with Nil Iterator A T D G Q show ?thesis
          by (intro strategicI) (auto simp: tick_defs accounted_all_plain)
      next
        case (Some k)
        with D have "inner k" by (auto intro: rearms_inner)
        with Some Nil Iterator A T D G Q show ?thesis
          by (intro strategicI) (auto simp: tick_defs accounted_Call)
      qed
    next
      case (Cons cb q)
      have p: "plain (Body (uses cb) (trailing (argvs st (args (seqs st sid)))))"
        using G by (auto split: option.splits)
      from Cons Iterator A T p show ?thesis
        by (intro strategicI)
           (auto simp: tick_defs accounted_plain completions_append dest: D G Q Q1 Q2 Q3 Q4 split: if_splits)
    qed
  next
    case (Body us k)
    with d(1) have A: "list_all plain rest" "owed (doneCallback st) (completions (trace st)) c0"
      and k: "k = None \<or> (\<exists>c. k = Some c \<and> inner c)"
      by (auto simp: accounted_plain split: option.splits)
    show ?thesis
    proof (cases us)
      case Nil
      with Body A T D G Q show ?thesis
        by (intro strategicI) (auto simp: tick_defs accounted_all_plain)
    next
      case (Cons u us')
      with Body A T k show ?thesis
        by (cases u; intro strategicI)
           (auto simp: tick_defs accounted_plain accounted_all_plain owed_def dest: D G Q Q1 Q2 Q3 Q4)
    qed
  next
    case (Call k)
    show ?thesis
    proof (cases "k = Final")
      case True
      with Call d(1) obtain rest' where "rest = ClearDone # rest'" "list_all plain rest'"
        "doneCallback st = Some Final" "completions (trace st) = c0"
        by (auto simp: accounted_Final)
      with True Call T show ?thesis
        by (intro strategicI) (auto simp: tick_defs completions_append dest: D G Q Q1 Q2 Q3 Q4)
    next
      case False
      with Call d(1) have A: "list_all plain rest" "owed (doneCallback st) (completions (trace st)) c0"
        and k: "inner k"
        by (cases k; auto simp: accounted_plain)+
      from False Call A T k show ?thesis
        by (cases k; intro strategicI)
           (auto simp: tick_defs accounted_plain accounted_all_plain owed_def completions_append
                 dest: D G Q Q1 Q2 Q3 Q4 split: option.splits)
    qed
  next
    case ClearDone
    with d(1) T show ?thesis
      by (intro strategicI) (auto simp: accounted_all_plain owed_def dest: D G Q Q1 Q2 Q3 Q4)
  next
    case (ExecuteNextWave i)
    with d(1) have A: "list_all plain rest" "owed (doneCallback st) (completions (trace st)) c0"
      by simp_all
    with ExecuteNextWave T show ?thesis
      by (intro strategicI)
         (auto simp: tick_defs accounted_plain accounted_all_plain completions_append
               dest: D G Q Q1 Q2 Q3 Q4 split: if_splits)
  next
    case ExecuteNextGremlin
    with d(1) have A: "list_all plain rest" "owed (doneCallback st) (completions (trace st)) c0"
      by simp_all
    with ExecuteNextGremlin T show ?thesis
      by (intro strategicI)
         (auto simp: tick_defs accounted_plain accounted_all_plain completions_append
               dest: D G Q Q1 Q2 Q3 Q4 split: if_splits list.splits)
  next
    case (ExecuteNextOfSpecies g i)
    with d(1) have A: "list_all plain rest" "owed (doneCallback st) (completions (trace st)) c0"
      by simp_all
    with ExecuteNextOfSpecies T show ?thesis
      by (intro strategicI)
         (auto simp: tick_defs accounted_plain accounted_all_plain completions_append
               dest: D G Q Q1 Q2 Q3 Q4 split: if_splits)
  next
    case (ExecuteNextStep g i)
    with d(1) have A: "list_all plain rest" "owed (doneCallback st) (completions (trace st)) c0"
      by simp_all
    with ExecuteNextStep T show ?thesis
      by (intro strategicI)
         (auto simp: tick_defs accounted_plain accounted_all_plain completions_append
               dest: D G Q Q1 Q2 Q3 Q4 split: if_splits)
  qed
qed

lemma step_strategic:
  assumes "strategic c0 st" "step st = Some st'"
  shows "strategic c0 st'"
proof (cases "stack st")
  case Nil
  from step_fires[OF Nil assms(2)] obtain t where t: "t \<in> set (timers st)" and
    st': "st' = st\<lparr> timers := remove1 t (timers st), clock := max (clock st) (fst t),
                         stack := [Call (snd t)] \<rparr>"
    by blast
  let ?t = t
  note d = strategicD[OF assms(1)]
  have "?t \<in> set (timers st)" by (rule t)
  with d(2) have k: "inner (snd ?t)" by (auto simp: list_all_iff)
  show ?thesis unfolding st'
    using d(1) d(2) k Nil
    by (intro strategicI) (auto simp: accounted_Call list_all_remove1 dest: d(3) d(4) d(5))
next
  case (Cons f rest)
  with assms have st': "st' = tick f (st\<lparr> stack := rest \<rparr>)" by (simp add: step_def)
  have "st\<lparr> stack := f # rest \<rparr> = st" using Cons by simp
  with assms(1) show ?thesis unfolding st' using tick_strategic[where st=st and f=f and rest=rest] by simp
qed

lemma steps_strategic: "strategic c0 st \<Longrightarrow> strategic c0 (steps n st)"
proof (induction n arbitrary: st)
  case 0
  then show ?case by simp
next
  case (Suc n)
  then show ?case by (cases "step st") (auto dest: step_strategic)
qed

lemma stop_strategic: "strategic c0 st \<Longrightarrow> strategic c0 (stop st)"
  by (auto simp: strategic_def stop_def setTimeout_def)

lemma stops_strategic: "strategic c0 st \<Longrightarrow> strategic c0 ((stop ^^ m) st)"
  by (induction m) (auto intro: stop_strategic)

lemma stop_effect:
  "stopped (stop st) \<and> done_due (stop st) \<and> trace (stop st) = trace st"
  by (auto simp: stop_def setTimeout_def done_due_def)

lemma stops_effect:
  "stopped ((stop ^^ Suc m) st) \<and> done_due ((stop ^^ Suc m) st) \<and> trace ((stop ^^ Suc m) st) = trace st"
proof (induction m)
  case 0
  show ?case using stop_effect[of st] by simp
next
  case (Suc m)
  then show ?case using stop_effect[of "(stop ^^ Suc m) st"] by simp
qed

lemma sum_fun_upd:
  fixes w :: "'b \<Rightarrow> nat" and n :: nat
  assumes "sid < n"
  shows "(\<Sum>i<n. w ((g(sid := v)) i)) + w (g sid) = (\<Sum>i<n. w (g i)) + w v"
proof -
  have a: "(\<Sum>i<n. w (g i)) = w (g sid) + (\<Sum>i\<in>{..<n} - {sid}. w (g i))"
    using assms by (intro sum.remove) auto
  have b: "(\<Sum>i<n. w ((g(sid := v)) i)) = w ((g(sid := v)) sid) + (\<Sum>i\<in>{..<n} - {sid}. w ((g(sid := v)) i))"
    using assms by (intro sum.remove) auto
  have c: "(\<Sum>i\<in>{..<n} - {sid}. w ((g(sid := v)) i)) = (\<Sum>i\<in>{..<n} - {sid}. w (g i))"
    by (intro sum.cong) auto
  show ?thesis using a b c by simp
qed

lemma inner_weight: "inner k \<Longrightarrow> 0 < call_weight k \<and> call_weight k \<le> 6"
  by (cases k) auto

lemma rearms_weight: "rearms k \<Longrightarrow> call_weight k = 4"
  by (cases k) auto

lemma plain_weight: "plain f \<Longrightarrow> 0 < frame_weight f"
  by (cases f) (auto simp: body_weight_def inner_weight split: option.splits)

lemma tick_stopped:
  fixes st :: "('a, 'v, 's) machine"
  assumes inv: "strategic c0 (st\<lparr> stack := f # rest \<rparr>)" and stopped: "stopped st"
    and due: "done_due (st\<lparr> stack := f # rest \<rparr>)"
  shows "stopped (tick f (st\<lparr> stack := rest \<rparr>)) \<and> done_due (tick f (st\<lparr> stack := rest \<rparr>)) \<and>
         begun (trace (tick f (st\<lparr> stack := rest \<rparr>))) = begun (trace st) \<and>
         budget (tick f (st\<lparr> stack := rest \<rparr>)) < budget (st\<lparr> stack := f # rest \<rparr>)"
proof -
  note d = strategicD[OF inv, simplified]
  have D: "rearms k" if "doneFn (seqs st sid) = Some k" for sid k using d(3) that .
  have G: "inner k" if "trailing (argvs st a) = Some k" for a k using d(4) that .
  have Q: "callbacksCopy (seqs st sid) = []" if "fresh st \<le> sid" for sid using d(5) that .
  show ?thesis
  proof (cases f)
    case (Iterator sid)
    show ?thesis
    proof (cases "callbacksCopy (seqs st sid)")
      case Nil
      with Iterator stopped due show ?thesis
        by (auto simp: tick_defs done_due_def budget_def begun_append image_iff
                 dest!: D rearms_weight split: option.splits)
    next
      case (Cons cb q)
      then have "sid < fresh st" using Q[of sid] by (cases "sid < fresh st") auto
      from sum_fun_upd[OF this, of "\<lambda>s. queue_weight (callbacksCopy s)" "seqs st"
             "(seqs st sid)\<lparr> callbacksCopy := q \<rparr>"] Cons
      have "(\<Sum>i<fresh st. queue_weight (callbacksCopy (((seqs st)(sid := (seqs st sid)\<lparr> callbacksCopy := q \<rparr>)) i)))
              + Suc (body_weight (uses cb)) + queue_weight q
            = (\<Sum>i<fresh st. queue_weight (callbacksCopy (seqs st i))) + queue_weight q"
        by (simp add: queue_weight_def)
      with Cons Iterator stopped due show ?thesis
        by (auto simp: tick_defs done_due_def budget_def begun_append image_iff)
    qed
  next
    case (Body us k)
    with d(1) have k: "k = None \<or> (\<exists>c. k = Some c \<and> inner c)"
      by (auto simp: accounted_plain split: option.splits)
    show ?thesis
    proof (cases us)
      case Nil
      with Body stopped due show ?thesis
        by (auto simp: tick_defs done_due_def budget_def body_weight_def)
    next
      case (Cons u us')
      with Body stopped due k show ?thesis
        by (cases u) (auto simp: tick_defs done_due_def budget_def body_weight_def image_iff
                           dest!: inner_weight)
    qed
  next
    case (Call k)
    show ?thesis
    proof (cases "k = Final")
      case True
      with Call d(1) obtain rest' where "rest = ClearDone # rest'"
        by (auto simp: accounted_Final)
      with True Call stopped due show ?thesis
        by (auto simp: tick_defs done_due_def budget_def begun_append)
    next
      case False
      with Call d(1) have A: "owed (doneCallback st) (completions (trace st)) c0"
        and k: "inner k"
        by (cases k; auto simp: accounted_plain)+
      from False Call A k stopped due show ?thesis
        by (cases k)
           (auto simp: tick_defs done_due_def budget_def owed_def begun_append image_iff
                 split: option.splits)
    qed
  next
    case ClearDone
    with stopped due show ?thesis
      by (auto simp: done_due_def budget_def)
  next
    case (ExecuteNextWave i)
    with stopped due show ?thesis
      by (auto simp: done_due_def budget_def)
  next
    case ExecuteNextGremlin
    with stopped due show ?thesis
      by (auto simp: done_due_def budget_def)
  next
    case (ExecuteNextOfSpecies g i)
    with stopped due show ?thesis
      by (auto simp: done_due_def budget_def)
  next
    case (ExecuteNextStep g i)
    with stopped due show ?thesis
      by (auto simp: done_due_def budget_def)
  qed
qed

lemma step_stopped:
  fixes st :: "('a, 'v, 's) machine"
  assumes inv: "strategic c0 st" and stopped: "stopped st" and due: "done_due st"
    and step: "step st = Some st'"
  shows "stopped st' \<and> done_due st' \<and> begun (trace st') = begun (trace st) \<and> budget st' < budget st"
proof (cases "stack st")
  case Nil
  from step_fires[OF Nil step] obtain t0 where t: "t0 \<in> set (timers st)" and
    st': "st' = st\<lparr> timers := remove1 t0 (timers st), clock := max (clock st) (fst t0),
                         stack := [Call (snd t0)] \<rparr>"
    by blast
  let ?t = t0
  have w: "sum_list (map (\<lambda>t. Suc (call_weight (snd t))) (timers st))
             = Suc (call_weight (snd ?t)) + sum_list (map (\<lambda>t. Suc (call_weight (snd t))) (remove1 ?t (timers st)))"
    using t by (rule sum_list_map_remove1)
  have due': "done_due st'"
  proof (cases "doneCallback st = None")
    case True
    then show ?thesis unfolding st' by (simp add: done_due_def)
  next
    case False
    with due Nil obtain u where u: "u \<in> set (timers st)" "snd u = CallDone"
      by (auto simp: done_due_def)
    show ?thesis
    proof (cases "snd ?t = CallDone")
      case True
      then show ?thesis unfolding st' by (simp add: done_due_def)
    next
      case False
      with u have "u \<noteq> ?t" by auto
      with u have "u \<in> set (remove1 ?t (timers st))" by simp
      with u(2) have "CallDone \<in> snd ` set (remove1 ?t (timers st))" by force
      then show ?thesis unfolding st' by (simp add: done_due_def)
    qed
  qed
  show ?thesis using due' stopped w Nil unfolding st' by (simp add: budget_def)
next
  case (Cons f rest)
  with step have st': "st' = tick f (st\<lparr> stack := rest \<rparr>)" by (simp add: step_def)
  have "st\<lparr> stack := f # rest \<rparr> = st" using Cons by simp
  with inv stopped due show ?thesis unfolding st'
    using tick_stopped[where st=st and f=f and rest=rest and ?c0.0=c0] by simp
qed

lemma at_rest:
  assumes inv: "strategic c0 st" and due: "done_due st" and "budget st = 0 \<or> step st = None"
  shows "quiescent st \<and> completions (trace st) = Suc c0"
proof -
  note d = strategicD[OF inv]
  have "stack st = [] \<and> timers st = []"
  proof (cases "step st")
    case None
    then show ?thesis by (auto simp: step_def next_timer_None split: list.splits option.splits)
  next
    case (Some st')
    with assms(3) have b: "budget st = 0" by simp
    have "timers st = []" using b by (cases "timers st") (auto simp: budget_def)
    moreover have "stack st = []"
    proof (cases "stack st")
      case Nil
      then show ?thesis .
    next
      case (Cons f rest)
      with b have "frame_weight f = 0" by (simp add: budget_def)
      moreover from d(1) Cons have "plain f \<or> f = Call Final \<or> f = ClearDone"
        by (cases f; cases rest) (auto elim: accounted.elims)
      ultimately show ?thesis using plain_weight[of f] by auto
    qed
    ultimately show ?thesis by simp
  qed
  moreover from this due have "doneCallback st = None" by (auto simp: done_due_def)
  ultimately show ?thesis using d(1) by (simp add: quiescent_def owed_def)
qed

lemma drain:
  "strategic c0 st \<Longrightarrow> stopped st \<Longrightarrow> done_due st \<Longrightarrow> budget st \<le> n \<Longrightarrow>
   quiescent (steps n st) \<and> completions (trace (steps n st)) = Suc c0 \<and>
   begun (trace (steps n st)) = begun (trace st)"
proof (induction n arbitrary: st)
  case 0
  then show ?case using at_rest[of c0 st] by simp
next
  case (Suc n)
  show ?case
  proof (cases "step st")
    case None
    with Suc.prems show ?thesis using at_rest[of c0 st] by simp
  next
    case (Some st')
    from step_stopped[OF Suc.prems(1-3) Some] step_strategic[OF Suc.prems(1) Some] Suc.prems(4)
    have "strategic c0 st'" "stopped st'" "done_due st'" "budget st' \<le> n"
      "begun (trace st') = begun (trace st)" by auto
    with Suc.IH[of st'] Some show ?thesis by simp
  qed
qed

lemma stop_after_settles:
  assumes "strategic c0 started"
  shows "quiescent (stop_after n m started) \<and>
         completions (trace (stop_after n m started)) = Suc c0 \<and>
         begun (trace (stop_after n m started)) = begun (trace (steps n started))"
proof -
  let ?h = "(stop ^^ Suc m) (steps n started)"
  have "strategic c0 ?h" using assms by (intro stops_strategic steps_strategic)
  moreover have "stopped ?h" "done_due ?h" "trace ?h = trace (steps n started)"
    using stops_effect[of m "steps n started"] by simp_all
  ultimately show ?thesis
    using drain[of c0 ?h "budget ?h"] by (simp add: stop_after_def halted_def)
qed

lemma allTogetherStrategy_strategic:
  "pristine st \<Longrightarrow> strategic (completions (trace st)) (allTogetherStrategy g params (Some Final) st)"
  by (auto simp: pristine_def strategic_def allTogetherStrategy_def push_def owed_def)

lemma bySpeciesStrategy_strategic:
  "pristine st \<Longrightarrow> strategic (completions (trace st)) (bySpeciesStrategy g params (Some Final) st)"
  by (auto simp: pristine_def strategic_def bySpeciesStrategy_def push_def owed_def newArray_def Let_def)

lemma distributionStrategy_strategic:
  "pristine st \<Longrightarrow> chosen_nb params (config_nb st) \<noteq> 0 \<Longrightarrow>
   strategic (completions (trace st)) (distributionStrategy g params (Some Final) st)"
  by (auto simp: pristine_def strategic_def distributionStrategy_def push_def owed_def newArray_def Let_def)

lemma next_timer_least: "next_timer ts = Some t \<Longrightarrow> u \<in> set ts \<Longrightarrow> fst t \<le> fst u"
  by (induction ts arbitrary: t) (auto simp: next_timer_None split: option.splits if_splits)

lemma tick_clock:
  "clock (tick f st) = clock st"
proof (cases f)
  case (Iterator sid)
  then show ?thesis
    by (cases "callbacksCopy (seqs st sid)") (auto simp: tick_defs split: option.splits)
next
  case (Body us k)
  show ?thesis
  proof (cases us)
    case Nil
    with Body show ?thesis by simp
  next
    case (Cons u us')
    with Body show ?thesis by (cases u) (auto simp: tick_defs split: option.splits)
  qed
next
  case (Call k)
  then show ?thesis by (cases k) (auto simp: tick_defs split: option.splits)
qed (auto simp: tick_defs split: list.splits)

lemma settling_Cons:
  "settling (f # rest) \<longleftrightarrow> f = Call CallDone \<or> f = Call Final \<or> f = ClearDone"
proof (cases f)
  case (Call k)
  then show ?thesis by (cases k) auto
qed auto

lemma due_done_due:
  "(\<exists>u \<in> set (timers st). snd u = CallDone \<and> fst u \<le> T) \<or> settling (stack st) \<Longrightarrow> done_due st"
  by (force simp: done_due_def)

lemma step_on_time:
  fixes st :: "('a, 'v, 's) machine"
  assumes inv: "strategic c0 st" and open_: "completions (trace st) = c0" and "clock st \<le> T"
    and due: "(\<exists>u \<in> set (timers st). snd u = CallDone \<and> fst u \<le> T) \<or> settling (stack st)"
    and step: "step st = Some st'"
  shows "clock st' \<le> T \<and>
         (completions (trace st') = Suc c0 \<or>
          completions (trace st') = c0 \<and>
          ((\<exists>u \<in> set (timers st'). snd u = CallDone \<and> fst u \<le> T) \<or> settling (stack st')))"
proof (cases "stack st")
  case Nil
  from step_fires[OF Nil step] obtain t0 where nt: "next_timer (timers st) = Some t0" and
    st': "st' = st\<lparr> timers := remove1 t0 (timers st), clock := max (clock st) (fst t0),
                         stack := [Call (snd t0)] \<rparr>"
    by blast
  let ?t = t0
  from due Nil obtain u where u: "u \<in> set (timers st)" "snd u = CallDone" "fst u \<le> T" by auto
  have "fst ?t \<le> fst u" using nt u(1) by (rule next_timer_least)
  with u(3) assms(3) have c: "max (clock st) (fst ?t) \<le> T" by simp
  show ?thesis
  proof (cases "snd ?t = CallDone")
    case True
    with c open_ show ?thesis unfolding st' by simp
  next
    case False
    with u have "u \<noteq> ?t" by auto
    with u have "u \<in> set (remove1 ?t (timers st))" by simp
    with u(2,3) c open_ show ?thesis unfolding st' by auto
  qed
next
  case (Cons f rest)
  with step have st': "st' = tick f (st\<lparr> stack := rest \<rparr>)" by (simp add: step_def)
  have c: "clock st' \<le> T" unfolding st' using assms(3) by (simp add: tick_clock)
  note d = strategicD[OF inv]
  from d(1) Cons open_ have acc: "accounted (f # rest) (doneCallback st) c0 c0" by simp
  have timers_kept: "set (timers st) \<subseteq> set (timers (tick f (st\<lparr> stack := rest \<rparr>)))"
  proof (cases f)
    case (Iterator sid)
    then show ?thesis
      by (cases "callbacksCopy (seqs st sid)") (auto simp: tick_defs split: option.splits)
  next
    case (Body us k)
    show ?thesis
    proof (cases us)
      case Nil
      with Body show ?thesis by simp
    next
      case (Cons u us')
      with Body show ?thesis by (cases u) (auto simp: tick_defs split: option.splits)
    qed
  next
    case (Call k)
    then show ?thesis by (cases k) (auto simp: tick_defs split: option.splits)
  qed (auto simp: tick_defs split: list.splits)
  show ?thesis
  proof (cases "f = Call Final")
    case True
    then have "completions (trace st') = Suc c0"
      unfolding st' using open_ by (simp add: completions_append)
    with c show ?thesis by simp
  next
    case False
    have same: "completions (trace st') = c0"
    proof -
      have "completions (trace (tick f (st\<lparr> stack := rest \<rparr>))) = completions (trace st)"
      proof (cases f)
        case (Iterator sid)
        then show ?thesis
          by (cases "callbacksCopy (seqs st sid)")
             (auto simp: tick_defs completions_append split: option.splits)
      next
        case (Body us k)
        show ?thesis
        proof (cases us)
          case Nil
          with Body show ?thesis by simp
        next
          case (Cons u us')
          with Body show ?thesis by (cases u) (auto simp: tick_defs split: option.splits)
        qed
      next
        case (Call k)
        with False show ?thesis by (cases k) (auto simp: tick_defs split: option.splits)
      qed (auto simp: tick_defs completions_append split: list.splits)
      with open_ show ?thesis unfolding st' by simp
    qed
    have "(\<exists>u \<in> set (timers st'). snd u = CallDone \<and> fst u \<le> T) \<or> settling (stack st')"
    proof (cases "\<exists>u \<in> set (timers st). snd u = CallDone \<and> fst u \<le> T")
      case True
      with timers_kept show ?thesis unfolding st' by blast
    next
      case no_timer: False
      with due Cons have s: "settling (f # rest)" by simp
      with False have "f = Call CallDone \<or> f = ClearDone"
        by (auto simp: settling_Cons)
      then show ?thesis
      proof
        assume f: "f = Call CallDone"
        with acc have "doneCallback st = Some Final" by (auto simp: accounted_plain owed_def)
        with f show ?thesis unfolding st' by simp
      next
        assume "f = ClearDone"
        with acc show ?thesis by simp
      qed
    qed
    with c same show ?thesis by simp
  qed
qed

lemma delivered_on_time:
  fixes st :: "('a, 'v, 's) machine"
  shows "strategic c0 st \<Longrightarrow> stopped st \<Longrightarrow> completions (trace st) = c0 \<Longrightarrow> clock st \<le> T \<Longrightarrow>
   (\<exists>u \<in> set (timers st). snd u = CallDone \<and> fst u \<le> T) \<or> settling (stack st) \<Longrightarrow>
   budget st \<le> n \<Longrightarrow>
   \<exists>k. completions (trace (steps k st)) = Suc c0 \<and> clock (steps k st) \<le> T"
proof (induction n arbitrary: st)
  case 0
  have "done_due st" using 0(5) by (rule due_done_due)
  with at_rest[of c0 st] 0 show ?case by auto
next
  case (Suc n)
  have dd: "done_due st" using Suc.prems(5) by (rule due_done_due)
  show ?case
  proof (cases "step st")
    case None
    with at_rest[of c0 st] Suc.prems dd show ?thesis by auto
  next
    case (Some st')
    from step_on_time[OF Suc.prems(1,3,4,5) Some]
    have c: "clock st' \<le> T" and alt: "completions (trace st') = Suc c0 \<or>
          completions (trace st') = c0 \<and>
          ((\<exists>u \<in> set (timers st'). snd u = CallDone \<and> fst u \<le> T) \<or> settling (stack st'))"
      by auto
    from alt show ?thesis
    proof
      assume "completions (trace st') = Suc c0"
      with c Some have "completions (trace (steps 1 st)) = Suc c0 \<and> clock (steps 1 st) \<le> T" by simp
      then show ?thesis by blast
    next
      assume a: "completions (trace st') = c0 \<and>
          ((\<exists>u \<in> set (timers st'). snd u = CallDone \<and> fst u \<le> T) \<or> settling (stack st'))"
      from step_stopped[OF Suc.prems(1,2) dd Some] step_strategic[OF Suc.prems(1) Some] Suc.prems(6)
      have "strategic c0 st'" "stopped st'" "budget st' \<le> n" by auto
      with Suc.IH[of st'] a c obtain k where
        "completions (trace (steps k st')) = Suc c0 \<and> clock (steps k st') \<le> T" by blast
      with Some have "completions (trace (steps (Suc k) st)) = Suc c0 \<and> clock (steps (Suc k) st) \<le> T"
        by simp
      then show ?thesis by blast
    qed
  qed
qed

lemma stops_timer:
  "clock ((stop ^^ Suc m) st) = clock st \<and>
   (\<exists>u \<in> set (timers ((stop ^^ Suc m) st)). snd u = CallDone \<and> fst u \<le> clock st + 4)"
proof (induction m)
  case 0
  show ?case by (simp add: stop_def setTimeout_def)
next
  case (Suc m)
  then show ?case by (auto simp: stop_def setTimeout_def)
qed

lemma owed_range:
  assumes "strategic c0 st"
  shows "completions (trace st) = c0 \<or> completions (trace st) = Suc c0"
proof -
  from strategicD(1)[OF assms] show ?thesis
    by (cases "(stack st, doneCallback st, completions (trace st), c0)" rule: accounted.cases)
       (auto simp: owed_def)
qed

lemma halted_on_time:
  assumes "strategic c0 started"
  shows "trace (halted n m started) = trace (steps n started) \<and>
         (\<exists>k. completions (trace (steps k (halted n m started))) = Suc c0 \<and>
              clock (steps k (halted n m started)) \<le> clock (steps n started) + 4)"
proof -
  let ?s = "steps n started"
  let ?h = "halted n m started"
  have inv: "strategic c0 ?h" unfolding halted_def using assms by (intro stops_strategic steps_strategic)
  have e: "stopped ?h" "trace ?h = trace ?s"
    unfolding halted_def using stops_effect[of m ?s] by simp_all
  have t: "clock ?h = clock ?s" "\<exists>u \<in> set (timers ?h). snd u = CallDone \<and> fst u \<le> clock ?s + 4"
    unfolding halted_def using stops_timer[of m ?s] by simp_all
  from owed_range[OF inv] show ?thesis
  proof
    assume "completions (trace ?h) = c0"
    from delivered_on_time[OF inv e(1) this, of "clock ?s + 4" "budget ?h"] t
    show ?thesis using e(2) by simp
  next
    assume "completions (trace ?h) = Suc c0"
    then have "completions (trace (steps 0 ?h)) = Suc c0 \<and> clock (steps 0 ?h) \<le> clock ?s + 4"
      using t(1) by simp
    then show ?thesis using e(2) by blast
  qed
qed

text \<open>
  Claim C3. Start any of the three strategies with a completion callback on a machine
  where nothing has run yet, let it run for any number \<open>n\<close> of steps, with any gremlins,
  call \<open>stop\<close> once or several times in succession, and let the machine run on. Then it
  comes to rest; from the start of the strategy the completion callback has run exactly
  once; no wave or step has begun after the calls of \<open>stop\<close>; and the completion is
  delivered not by \<open>stop\<close> itself but by its timer, no later than 4 on the clock after
  the calls. This covers the run that is stopped midway and the run that had already
  finished by itself. (A distribution strategy whose repetition count is zero completes
  at once and is never midway.)
\<close>

theorem stop_completes_exactly_once:
  fixes st :: "('a, 'v, 's) machine"
  assumes "pristine st"
  shows "stops_cleanly (completions (trace st)) n m (allTogetherStrategy g params (Some Final) st) \<and>
         stops_cleanly (completions (trace st)) n m (bySpeciesStrategy g params (Some Final) st) \<and>
         (chosen_nb params (config_nb st) \<noteq> 0 \<longrightarrow>
          stops_cleanly (completions (trace st)) n m (distributionStrategy g params (Some Final) st))"
proof -
  have "stops_cleanly c0 n m started" if "strategic c0 started"
    for c0 and started :: "('a, 'v, 's) machine"
    using stop_after_settles[OF that, of n m] halted_on_time[OF that, of n m]
    unfolding stops_cleanly_def by blast
  then show ?thesis
    using allTogetherStrategy_strategic[OF assms] bySpeciesStrategy_strategic[OF assms]
      distributionStrategy_strategic[OF assms]
    by blast
qed

theorem stop_completes_exactly_once_witness:
  "pristine (newArray [Callable ''G1'' 0 [] None, Callable ''G2'' 1 [Later 3] None]
              (blank () () :: (string, unit, unit) machine)) \<and>
   chosen_nb (Record (Some 3))
     (config_nb (newArray [Callable ''G1'' 0 [] None, Callable ''G2'' 1 [Later 3] None]
              (blank () () :: (string, unit, unit) machine))) \<noteq> 0 \<and>
   stops_cleanly 0 7 1 (allTogetherStrategy 0 (Record (Some 3)) (Some Final)
     (newArray [Callable ''G1'' 0 [] None, Callable ''G2'' 1 [Later 3] None]
              (blank () () :: (string, unit, unit) machine))) \<and>
   stops_cleanly 0 7 1 (bySpeciesStrategy 0 (Record (Some 3)) (Some Final)
     (newArray [Callable ''G1'' 0 [] None, Callable ''G2'' 1 [Later 3] None]
              (blank () () :: (string, unit, unit) machine))) \<and>
   stops_cleanly 0 7 1 (distributionStrategy 0 (Record (Some 3)) (Some Final)
     (newArray [Callable ''G1'' 0 [] None, Callable ''G2'' 1 [Later 3] None]
              (blank () () :: (string, unit, unit) machine)))"
  using stop_completes_exactly_once[where st =
          "newArray [Callable ''G1'' 0 [] None, Callable ''G2'' 1 [Later 3] None]
              (blank () () :: (string, unit, unit) machine)" and n = 7 and m = 1 and g = 0
          and params = "Record (Some 3)"]
  by (simp add: pristine_def newArray_def blank_def chosen_nb_def)

subsection \<open>Runs that are not stopped\<close>




lemma begun_map [simp]: "begun (map (\<lambda>f. Invoked f xs) q) = []"
  by (induction q) auto

lemma completions_map [simp]: "completions (map (\<lambda>f. Invoked f xs) q) = 0"
  by (induction q) auto

lemma invoked_snoc_Began [simp]: "invoked (xs @ [Began i]) = invoked xs"
  by (simp add: invoked_append)













end
